theory Spec2Isabelle
  imports Main "HOL-Library.Sublist"
begin

section \<open>Text as the scanner sees it\<close>

text \<open>
  File contents, evidence and identifiers are Python \<open>str\<close> values. They are modelled as
  \<open>string\<close>, one \<open>char\<close> per code point, so the texts covered are those whose code
  points lie below 256. The character tables below (\<open>lower\<close>, \<open>\w\<close>, \<open>\s\<close>, \<open>\d\<close>) are
  the ones Python uses on that range.
\<close>

definition newline :: char where
  "newline = CHR 0x0A"

definition upper_chars :: string where
  "upper_chars = ''ABCDEFGHIJKLMNOPQRSTUVWXYZ'' @
     [CHR 0xC0, CHR 0xC1, CHR 0xC2, CHR 0xC3, CHR 0xC4, CHR 0xC5, CHR 0xC6, CHR 0xC7,
      CHR 0xC8, CHR 0xC9, CHR 0xCA, CHR 0xCB, CHR 0xCC, CHR 0xCD, CHR 0xCE, CHR 0xCF,
      CHR 0xD0, CHR 0xD1, CHR 0xD2, CHR 0xD3, CHR 0xD4, CHR 0xD5, CHR 0xD6,
      CHR 0xD8, CHR 0xD9, CHR 0xDA, CHR 0xDB, CHR 0xDC, CHR 0xDD, CHR 0xDE]"

definition lower_chars :: string where
  "lower_chars = ''abcdefghijklmnopqrstuvwxyz'' @
     [CHR 0xE0, CHR 0xE1, CHR 0xE2, CHR 0xE3, CHR 0xE4, CHR 0xE5, CHR 0xE6, CHR 0xE7,
      CHR 0xE8, CHR 0xE9, CHR 0xEA, CHR 0xEB, CHR 0xEC, CHR 0xED, CHR 0xEE, CHR 0xEF,
      CHR 0xF0, CHR 0xF1, CHR 0xF2, CHR 0xF3, CHR 0xF4, CHR 0xF5, CHR 0xF6,
      CHR 0xF8, CHR 0xF9, CHR 0xFA, CHR 0xFB, CHR 0xFC, CHR 0xFD, CHR 0xFE]"

definition lower_char :: "char \<Rightarrow> char" where
  "lower_char c = (case map_of (zip upper_chars lower_chars) c of Some l \<Rightarrow> l | None \<Rightarrow> c)"

definition str_lower :: "string \<Rightarrow> string" where
  \<comment> \<open>\<open>s.lower()\<close>\<close>
  "str_lower s = map lower_char s"

fun str_in :: "string \<Rightarrow> string \<Rightarrow> bool" where
  \<comment> \<open>\<open>k in s\<close> on strings: \<open>k\<close> occurs in \<open>s\<close> as a contiguous piece\<close>
  "str_in k [] = (k = [])"
| "str_in k (c # cs) = (prefix k (c # cs) \<or> str_in k cs)"

fun split_on :: "char \<Rightarrow> string \<Rightarrow> string list" where
  \<comment> \<open>\<open>s.split(sep)\<close> for a one-character separator\<close>
  "split_on sep [] = [[]]"
| "split_on sep (c # cs) =
     (if c = sep then [] # split_on sep cs
      else (case split_on sep cs of [] \<Rightarrow> [[c]] | l # ls \<Rightarrow> (c # l) # ls))"

fun join :: "string \<Rightarrow> string list \<Rightarrow> string" where
  \<comment> \<open>\<open>sep.join(xs)\<close>\<close>
  "join sep [] = []"
| "join sep [x] = x"
| "join sep (x # y # ys) = x @ sep @ join sep (y # ys)"

definition count_char :: "char \<Rightarrow> string \<Rightarrow> nat" where
  \<comment> \<open>\<open>s.count(c)\<close> for a one-character argument\<close>
  "count_char c s = length (filter (\<lambda>x. x = c) s)"

definition replace_char :: "char \<Rightarrow> char \<Rightarrow> string \<Rightarrow> string" where
  \<comment> \<open>\<open>s.replace(a, b)\<close> for one-character arguments\<close>
  "replace_char a b s = map (\<lambda>x. if x = a then b else x) s"

definition py_slice :: "nat \<Rightarrow> nat \<Rightarrow> 'a list \<Rightarrow> 'a list" where
  \<comment> \<open>\<open>xs[a:b]\<close> for non-negative \<open>a\<close> and \<open>b\<close>: empty when \<open>b \<le> a\<close>, cut at the end of \<open>xs\<close>\<close>
  "py_slice a b xs = take (b - a) (drop a xs)"

fun str_nat :: "nat \<Rightarrow> string" where
  \<comment> \<open>the decimal rendering an f-string gives a non-negative integer\<close>
  "str_nat n =
     (if n < 10 then [''0123456789'' ! n]
      else str_nat (n div 10) @ [''0123456789'' ! (n mod 10)])"

declare str_nat.simps [simp del]

section \<open>Regular expressions: the part of \<open>re\<close> the scanner uses\<close>

text \<open>
  A pattern is a tree of single-character tests, the empty pattern, the word boundary
  \<open>\b\<close>, sequence, alternation and the greedy star. The bounded repetitions of the source
  are unfolded: \<open>r+\<close> is \<open>r r*\<close>, \<open>r?\<close> is \<open>r|\<close> (the greedy choice first), \<open>r{n}\<close> is
  \<open>n\<close> copies and \<open>r{n,}\<close> is \<open>n\<close> copies followed by \<open>r*\<close>.

  The matcher \<open>ms\<close> is the backtracking search: from a state (the character before the
  current position, if any, and the rest of the text) it lists the states in which the
  pattern can end, in the order in which backtracking tries them, so the head of the list
  is the match that \<open>re\<close> reports at that position.
\<close>

datatype rx = Atom "char \<Rightarrow> bool" | Eps | WordB | Seq rx rx | Alt rx rx | Star rx

type_synonym mstate = "char option \<times> string"

definition is_word :: "char \<Rightarrow> bool" where
  \<comment> \<open>\<open>\w\<close>: alphanumeric or underscore\<close>
  "is_word c = (let n = of_char c :: nat in
     (48 \<le> n \<and> n \<le> 57) \<or> (65 \<le> n \<and> n \<le> 90) \<or> n = 95 \<or> (97 \<le> n \<and> n \<le> 122) \<or>
     n \<in> {170, 178, 179, 181, 185, 186, 188, 189, 190} \<or>
     (192 \<le> n \<and> n \<noteq> 215 \<and> n \<noteq> 247))"

definition is_space :: "char \<Rightarrow> bool" where
  \<comment> \<open>\<open>\s\<close>\<close>
  "is_space c = (let n = of_char c :: nat in
     (9 \<le> n \<and> n \<le> 13) \<or> (28 \<le> n \<and> n \<le> 32) \<or> n = 133 \<or> n = 160)"

definition is_digit :: "char \<Rightarrow> bool" where
  \<comment> \<open>\<open>\d\<close>, also \<open>[0-9]\<close>\<close>
  "is_digit c = (let n = of_char c :: nat in 48 \<le> n \<and> n \<le> 57)"

definition is_alpha :: "char \<Rightarrow> bool" where
  \<comment> \<open>\<open>[A-Za-z]\<close>\<close>
  "is_alpha c = (let n = of_char c :: nat in (65 \<le> n \<and> n \<le> 90) \<or> (97 \<le> n \<and> n \<le> 122))"

fun hdo :: "string \<Rightarrow> char option" where
  "hdo [] = None"
| "hdo (c # cs) = Some c"

fun wordo :: "char option \<Rightarrow> bool" where
  \<comment> \<open>outside the text counts as a non-word character\<close>
  "wordo None = False"
| "wordo (Some c) = is_word c"

fun ms :: "rx \<Rightarrow> mstate \<Rightarrow> mstate list" where
  "ms (Atom P) (p, s) = (case s of [] \<Rightarrow> [] | c # cs \<Rightarrow> if P c then [(Some c, cs)] else [])"
| "ms Eps st = [st]"
| "ms WordB (p, s) = (if wordo p \<noteq> wordo (hdo s) then [(p, s)] else [])"
| "ms (Seq a b) st = concat (map (ms b) (ms a st))"
| "ms (Alt a b) st = ms a st @ ms b st"
| "ms (Star a) st =
     concat (map (\<lambda>st'. if length (snd st') < length (snd st) then ms (Star a) st' else [])
                 (ms a st)) @ [st]"

fun search_from :: "rx \<Rightarrow> char option \<Rightarrow> string \<Rightarrow> bool" where
  "search_from r p [] = (ms r (p, []) \<noteq> [])"
| "search_from r p (c # cs) = (ms r (p, c # cs) \<noteq> [] \<or> search_from r (Some c) cs)"

definition re_search :: "rx \<Rightarrow> string \<Rightarrow> bool" where
  \<comment> \<open>the truth value of \<open>re.search(r, s)\<close>: some position of \<open>s\<close> starts a match\<close>
  "re_search r s = search_from r None s"

function sub_from :: "rx \<Rightarrow> string \<Rightarrow> bool \<Rightarrow> char option \<Rightarrow> string \<Rightarrow> string" where
  "sub_from r repl adv p s =
     (case find (\<lambda>(p', s'). \<not> adv \<or> length s' < length s) (ms r (p, s)) of
        Some (p', s') \<Rightarrow>
          if length s' < length s then repl @ sub_from r repl False p' s'
          else repl @ sub_from r repl True p s
      | None \<Rightarrow> (case s of [] \<Rightarrow> [] | c # cs \<Rightarrow> c # sub_from r repl False (Some c) cs))"
  by pat_completeness auto
termination
  apply (relation "measures [\<lambda>(r, repl, adv, p, s). length s,
                             \<lambda>(r, repl, adv, p, s). if adv then 0 else 1]")
  apply (auto simp: find_Some_iff)
  done

declare sub_from.simps [simp del]

text \<open>
  \<open>re.sub(r, repl, s)\<close> with a replacement that holds no group reference: scanning from
  the left, the match found at a position is replaced and the scan goes on behind it; where
  no match starts, the character is copied. After an empty match the next match at the
  same position has to be non-empty (the flag \<open>adv\<close>), as in \<open>re\<close>.
\<close>

definition re_sub :: "rx \<Rightarrow> string \<Rightarrow> string \<Rightarrow> string" where
  "re_sub r repl s = sub_from r repl False None s"

subsection \<open>Building patterns\<close>

definition lit :: "char \<Rightarrow> rx" where
  "lit c = Atom (\<lambda>x. x = c)"

definition ilit :: "char \<Rightarrow> rx" where
  \<comment> \<open>a literal character under \<open>re.IGNORECASE\<close>\<close>
  "ilit c = Atom (\<lambda>x. lower_char x = lower_char c)"

definition one_of :: "string \<Rightarrow> rx" where
  \<comment> \<open>a character class listing its members\<close>
  "one_of cs = Atom (\<lambda>x. x \<in> set cs)"

definition dot :: rx where
  \<comment> \<open>\<open>.\<close> without \<open>re.DOTALL\<close>\<close>
  "dot = Atom (\<lambda>x. x \<noteq> newline)"

definition seqs :: "rx list \<Rightarrow> rx" where
  "seqs rs = foldr Seq rs Eps"

definition str :: "string \<Rightarrow> rx" where
  "str s = seqs (map lit s)"

definition istr :: "string \<Rightarrow> rx" where
  "istr s = seqs (map ilit s)"

definition alts :: "rx \<Rightarrow> rx list \<Rightarrow> rx" where
  \<comment> \<open>\<open>r|r1|...|rn\<close>\<close>
  "alts r rs = foldr (\<lambda>a b. Alt a b) (butlast (r # rs)) (last (r # rs))"

definition plus :: "rx \<Rightarrow> rx" where
  "plus r = Seq r (Star r)"

definition opt :: "rx \<Rightarrow> rx" where
  "opt r = Alt r Eps"

fun rep :: "nat \<Rightarrow> rx \<Rightarrow> rx" where
  "rep 0 r = Eps"
| "rep (Suc n) r = Seq r (rep n r)"

definition at_least :: "nat \<Rightarrow> rx \<Rightarrow> rx" where
  "at_least n r = Seq (rep n r) (Star r)"

section \<open>The data model\<close>

datatype Severity = CRITICAL | HIGH | MEDIUM | LOW

fun severity_value :: "Severity \<Rightarrow> string" where
  "severity_value CRITICAL = ''critical''"
| "severity_value HIGH = ''high''"
| "severity_value MEDIUM = ''medium''"
| "severity_value LOW = ''low''"

datatype Framework = ISO27001 | SOC2 | GDPR

fun framework_value :: "Framework \<Rightarrow> string" where
  "framework_value ISO27001 = ''iso27001''"
| "framework_value SOC2 = ''soc2''"
| "framework_value GDPR = ''gdpr''"

datatype Confidence = Conf_high | Conf_medium | Conf_low

record Finding =
  finding_id :: string
  rule_id :: string
  framework :: Framework
  control_id :: string
  severity :: Severity
  file_path :: string
  line_range :: string
  evidence_snippet :: string
  why_it_matters :: string
  remediation_steps :: string
  mapping_confidence :: Confidence
  needs_review :: bool

record ScanSummary =
  total_files_scanned :: nat
  total_findings :: nat
  findings_by_severity :: "string \<rightharpoonup> nat"
  findings_by_framework :: "string \<rightharpoonup> nat"

record ScanResult =
  scan_id :: string
  paths_scanned :: "string list"
  summary :: ScanSummary
  findings :: "Finding list"
  top_risks :: "Finding list"

text \<open>
  The wall-clock fields of the source (the timestamp of a result, the duration in its
  summary) and the recommendation strings are read by none of the properties below and are
  left out of the records.

  Every finding is given a fresh identifier by \<open>uuid.uuid4()\<close>. The source of identifiers
  is passed through the functions that draw from it: a finding takes the next identifier
  and hands on the rest.
\<close>

type_synonym uuid_source = "nat \<Rightarrow> string"

definition uuid4 :: "uuid_source \<Rightarrow> string \<times> uuid_source" where
  "uuid4 u = (u 0, \<lambda>n. u (Suc n))"

text \<open>
  A \<open>pathlib\<close> path is used through its text, its components and its suffix.
\<close>

record path =
  path_str :: string
  path_parts :: "string list"
  path_suffix :: string

section \<open>The rule engine\<close>

text \<open>
  A rule is what \<open>Rule.__init__\<close> leaves: the enumerations checked, the pattern compiled.
  The rule files are not part of the sources read here, so a compiled pattern is taken as
  what \<open>finditer\<close> makes of it: from a text, the list of the spans (start and end offset)
  of its matches, in order. \<open>fmatch\<close> stands for \<open>PurePath.match\<close>.
\<close>

record Rule =
  r_id :: string
  r_framework :: Framework
  r_control_id :: string
  r_severity :: Severity
  r_pattern :: "string \<Rightarrow> (nat \<times> nat) list"
  r_file_globs :: "string list"
  r_why_it_matters :: string
  r_remediation_steps :: string
  r_mapping_confidence :: Confidence
  r_needs_review :: bool

definition extract_evidence :: "string \<Rightarrow> nat \<Rightarrow> nat \<Rightarrow> string" where
  "extract_evidence content start end' =
     (let lines = split_on newline content;
          start_line = count_char newline (take start content);
          end_line = count_char newline (take end' content);
          context_start = nat (max 0 (int start_line - 2));
          context_end = min (length lines) (end_line + 3);
          evidence_lines = py_slice context_start context_end lines
      in join [newline] evidence_lines)"

definition email_local :: "char \<Rightarrow> bool" where
  \<comment> \<open>\<open>[A-Za-z0-9._%+-]\<close>\<close>
  "email_local c = (is_alpha c \<or> is_digit c \<or> c \<in> set ''._%+-'')"

definition email_domain :: "char \<Rightarrow> bool" where
  \<comment> \<open>\<open>[A-Za-z0-9.-]\<close>\<close>
  "email_domain c = (is_alpha c \<or> is_digit c \<or> c \<in> set ''.-'')"

definition email_tld :: "char \<Rightarrow> bool" where
  \<comment> \<open>\<open>[A-Z|a-z]\<close>: the letters and the bar\<close>
  "email_tld c = (is_alpha c \<or> c = CHR ''|'')"

definition token_char :: "char \<Rightarrow> bool" where
  \<comment> \<open>\<open>[A-Za-z0-9+/]\<close>\<close>
  "token_char c = (is_alpha c \<or> is_digit c \<or> c \<in> set ''+/'')"

definition email_rx :: rx where
  \<comment> \<open>\<open>\b[A-Za-z0-9._%+-]+@[A-Za-z0-9.-]+\.[A-Z|a-z]{2,}\b\<close>\<close>
  "email_rx = seqs [WordB, plus (Atom email_local), lit CHR ''@'', plus (Atom email_domain),
                    lit CHR ''.'', at_least 2 (Atom email_tld), WordB]"

definition card_rx :: rx where
  \<comment> \<open>\<open>\b\d{4}[- ]?\d{4}[- ]?\d{4}[- ]?\d{4}\b\<close>\<close>
  "card_rx = seqs [WordB, rep 4 (Atom is_digit), opt (one_of ''- ''),
                   rep 4 (Atom is_digit), opt (one_of ''- ''),
                   rep 4 (Atom is_digit), opt (one_of ''- ''),
                   rep 4 (Atom is_digit), WordB]"

definition phone_rx :: rx where
  \<comment> \<open>\<open>\b\d{3}[- ]?\d{3}[- ]?\d{4}\b\<close>\<close>
  "phone_rx = seqs [WordB, rep 3 (Atom is_digit), opt (one_of ''- ''),
                    rep 3 (Atom is_digit), opt (one_of ''- ''),
                    rep 4 (Atom is_digit), WordB]"

definition token_rx :: rx where
  \<comment> \<open>\<open>\b[A-Za-z0-9+/]{20,}\b\<close>\<close>
  "token_rx = seqs [WordB, at_least 20 (Atom token_char), WordB]"

definition email_mask :: string where
  "email_mask = ''****@****.***''"

definition card_mask :: string where
  "card_mask = ''****-****-****-****''"

definition phone_mask :: string where
  "phone_mask = ''***-***-****''"

definition token_mask :: string where
  "token_mask = ''****[REDACTED]****''"

definition redact_sensitive_data :: "string \<Rightarrow> string" where
  "redact_sensitive_data text =
     (let text = re_sub email_rx email_mask text;
          text = re_sub card_rx card_mask text;
          text = re_sub phone_rx phone_mask text;
          text = re_sub token_rx token_mask text
      in text)"

fun scan_matches ::
  "Rule \<Rightarrow> path \<Rightarrow> string \<Rightarrow> (nat \<times> nat) list \<Rightarrow> uuid_source \<Rightarrow> Finding list \<times> uuid_source"
where
  "scan_matches rule fp content [] u = ([], u)"
| "scan_matches rule fp content ((mstart, mend) # spans) u =
     (let line_num = count_char newline (take mstart content) + 1;
          line_end = count_char newline (take mend content) + 1;
          evidence = extract_evidence content mstart mend;
          evidence_redacted = redact_sensitive_data evidence;
          (i, u1) = uuid4 u;
          finding = \<lparr> finding_id = i, rule_id = r_id rule, framework = r_framework rule,
                      control_id = r_control_id rule, severity = r_severity rule,
                      file_path = path_str fp,
                      line_range = str_nat line_num @ ''-'' @ str_nat line_end,
                      evidence_snippet = evidence_redacted,
                      why_it_matters = r_why_it_matters rule,
                      remediation_steps = r_remediation_steps rule,
                      mapping_confidence = r_mapping_confidence rule,
                      needs_review = r_needs_review rule \<rparr>;
          (rest, u2) = scan_matches rule fp content spans u1
      in (finding # rest, u2))"

fun scan_file ::
  "(path \<Rightarrow> string \<Rightarrow> bool) \<Rightarrow> Rule list \<Rightarrow> path \<Rightarrow> string \<Rightarrow> uuid_source
     \<Rightarrow> Finding list \<times> uuid_source"
where
  "scan_file fmatch [] fp content u = ([], u)"
| "scan_file fmatch (rule # rules) fp content u =
     (if \<not> list_ex (\<lambda>glob. fmatch fp glob) (r_file_globs rule)
      then scan_file fmatch rules fp content u
      else (let (found, u1) = scan_matches rule fp content (r_pattern rule content) u;
                (rest, u2) = scan_file fmatch rules fp content u1
            in (found @ rest, u2)))"

section \<open>The detectors\<close>

text \<open>A required section: its keywords and its control identifier.\<close>

type_synonym req_section = "string list \<times> string"

definition REQUIRED_SECTIONS :: "(Framework \<times> req_section list) list" where
  "REQUIRED_SECTIONS =
     [(GDPR, [([''data retention'', ''retention period''], ''Article 5''),
              ([''data subject rights'', ''individual rights''], ''Article 12''),
              ([''data protection impact'', ''DPIA''], ''Article 35''),
              ([''data breach'', ''incident response''], ''Article 33'')]),
      (ISO27001, [([''access control'', ''access management''], ''A.9''),
                  ([''incident response'', ''incident management''], ''A.16''),
                  ([''encryption'', ''cryptographic''], ''A.10'')]),
      (SOC2, [([''access control'', ''logical access''], ''CC 6.1''),
              ([''encryption'', ''data protection''], ''CC 6.7''),
              ([''monitoring'', ''system monitoring''], ''CC 7.1'')])]"

definition is_policy_document :: "string \<Rightarrow> bool" where
  "is_policy_document content =
     (let policy_indicators = [''policy'', ''procedure'', ''guideline'', ''standard'',
                               ''privacy'', ''security''];
          content_lower = str_lower content
      in list_ex (\<lambda>indicator. str_in indicator content_lower) policy_indicators)"

definition gap_finding :: "string \<Rightarrow> Framework \<Rightarrow> req_section \<Rightarrow> path \<Rightarrow> Finding" where
  \<comment> \<open>the finding built in the body of the loop; \<open>keywords[0]\<close> is the head of a list that
      is never empty in the table\<close>
  "gap_finding i fw sec fp =
     \<lparr> finding_id = i,
       rule_id = ''doc_gap_'' @ framework_value fw @ ''_'' @
                 replace_char CHR '' '' CHR ''_'' (replace_char CHR ''.'' CHR ''_'' (snd sec)),
       framework = fw,
       control_id = snd sec,
       severity = MEDIUM,
       file_path = path_str fp,
       line_range = ''1-end'',
       evidence_snippet = ''Missing section: '' @ join '', '' (fst sec),
       why_it_matters = ''Policy documents should address '' @ hd (fst sec) @
                        '' requirements for '' @ framework_value fw @ '' compliance'',
       remediation_steps = ''Add a section covering '' @ join '', '' (fst sec) @
                           '' in the policy document'',
       mapping_confidence = Conf_medium,
       needs_review = True \<rparr>"

fun scan_sections ::
  "Framework \<Rightarrow> req_section list \<Rightarrow> path \<Rightarrow> string \<Rightarrow> uuid_source \<Rightarrow> Finding list \<times> uuid_source"
where
  "scan_sections fw [] fp content_lower u = ([], u)"
| "scan_sections fw (sec # secs) fp content_lower u =
     (if \<not> list_ex (\<lambda>keyword. str_in keyword content_lower) (fst sec)
      then (let (i, u1) = uuid4 u;
                (rest, u2) = scan_sections fw secs fp content_lower u1
            in (gap_finding i fw sec fp # rest, u2))
      else scan_sections fw secs fp content_lower u)"

fun scan_frameworks ::
  "(Framework \<times> req_section list) list \<Rightarrow> path \<Rightarrow> string \<Rightarrow> uuid_source
     \<Rightarrow> Finding list \<times> uuid_source"
where
  "scan_frameworks [] fp content_lower u = ([], u)"
| "scan_frameworks ((fw, secs) # table) fp content_lower u =
     (let (found, u1) = scan_sections fw secs fp content_lower u;
          (rest, u2) = scan_frameworks table fp content_lower u1
      in (found @ rest, u2))"

definition scan_document :: "path \<Rightarrow> string \<Rightarrow> uuid_source \<Rightarrow> Finding list \<times> uuid_source" where
  "scan_document fp content u =
     (if \<not> is_policy_document content then ([], u)
      else scan_frameworks REQUIRED_SECTIONS fp (str_lower content) u)"

definition create_config_finding ::
  "string \<Rightarrow> path \<Rightarrow> string \<Rightarrow> Framework \<Rightarrow> string \<Rightarrow> Severity \<Rightarrow> string \<Rightarrow> string \<Rightarrow> string
     \<Rightarrow> Finding"
where
  "create_config_finding i fp rid fw control sev evidence why remediation =
     \<lparr> finding_id = i, rule_id = rid, framework = fw, control_id = control, severity = sev,
       file_path = path_str fp, line_range = ''1-end'', evidence_snippet = evidence,
       why_it_matters = why, remediation_steps = remediation,
       mapping_confidence = Conf_high, needs_review = False \<rparr>"

definition space_star :: rx where
  \<comment> \<open>\<open>\s*\<close>, also \<open>[\s]*\<close> and \<open>[\s\n]*\<close>: a newline is a space already\<close>
  "space_star = Star (Atom is_space)"

definition tls_rx :: rx where
  \<comment> \<open>\<open>ssl\s*[:=]\s*false|verify\s*[:=]\s*false|tls\s*[:=]\s*false\<close>, ignoring case\<close>
  "tls_rx = alts
     (seqs [istr ''ssl'', space_star, one_of '':='', space_star, istr ''false''])
     [seqs [istr ''verify'', space_star, one_of '':='', space_star, istr ''false''],
      seqs [istr ''tls'', space_star, one_of '':='', space_star, istr ''false'']]"

definition dq :: char where
  "dq = CHR 0x22"

definition quoted :: "string \<Rightarrow> rx" where
  \<comment> \<open>a literal text between double quotes\<close>
  "quoted s = seqs [lit dq, str s, lit dq]"

definition iquoted :: "string \<Rightarrow> rx" where
  "iquoted s = seqs [ilit dq, istr s, ilit dq]"

definition iam_rx1 :: rx where
  \<comment> \<open>\<open>"Action"\s*:\s*"\*".*"Resource"\s*:\s*"\*"\<close>\<close>
  "iam_rx1 = seqs [quoted ''Action'', space_star, lit CHR '':'', space_star, quoted ''*'',
                   Star dot,
                   quoted ''Resource'', space_star, lit CHR '':'', space_star, quoted ''*'']"

definition iam_rx2 :: rx where
  \<comment> \<open>\<open>"Resource"\s*:\s*"\*".*"Action"\s*:\s*"\*"\<close>\<close>
  "iam_rx2 = seqs [quoted ''Resource'', space_star, lit CHR '':'', space_star, quoted ''*'',
                   Star dot,
                   quoted ''Action'', space_star, lit CHR '':'', space_star, quoted ''*'']"

definition public_rx :: rx where
  \<comment> \<open>\<open>"public"[\s\n]*:[\s\n]*true|public[\s]*=[\s]*true\<close>, ignoring case\<close>
  "public_rx = alts
     (seqs [iquoted ''public'', space_star, ilit CHR '':'', space_star, istr ''true''])
     [seqs [istr ''public'', space_star, ilit CHR ''='', space_star, istr ''true'']]"

definition cipher_rx :: rx where
  \<comment> \<open>\<open>cipher.*RC4|cipher.*DES|cipher.*MD5\<close>, ignoring case\<close>
  "cipher_rx = alts
     (seqs [istr ''cipher'', Star dot, istr ''RC4''])
     [seqs [istr ''cipher'', Star dot, istr ''DES''],
      seqs [istr ''cipher'', Star dot, istr ''MD5'']]"

definition scan_config :: "path \<Rightarrow> string \<Rightarrow> uuid_source \<Rightarrow> Finding list \<times> uuid_source" where
  "scan_config fp content u =
     (let (f1, u1) =
            (if re_search tls_rx content
             then (let (i, u') = uuid4 u in
                   ([create_config_finding i fp ''disabled_tls'' ISO27001 ''A.13'' HIGH
                       ''TLS/SSL disabled in configuration''
                       ''Disabled encryption exposes data in transit to interception''
                       ''Enable TLS/SSL and certificate verification''], u'))
             else ([], u));
          (f2, u2) =
            (if re_search iam_rx1 content \<or> re_search iam_rx2 content
             then (let (i, u') = uuid4 u1 in
                   ([create_config_finding i fp ''broad_iam'' SOC2 ''CC 6.2'' CRITICAL
                       ''Overly broad IAM permissions''
                       ''Wildcard permissions violate principle of least privilege''
                       ''Restrict actions and resources to specific required permissions''], u'))
             else ([], u1));
          (f3, u3) =
            (if re_search public_rx content
             then (let (i, u') = uuid4 u2 in
                   ([create_config_finding i fp ''public_storage'' GDPR ''Article 32'' HIGH
                       ''Public storage configuration''
                       ''Public access may expose personal data''
                       ''Review and restrict public access to necessary resources only''], u'))
             else ([], u2));
          (f4, u4) =
            (if re_search cipher_rx content
             then (let (i, u') = uuid4 u3 in
                   ([create_config_finding i fp ''weak_cipher'' ISO27001 ''A.10'' HIGH
                       ''Weak cipher suites configured''
                       ''Weak cryptographic algorithms are vulnerable to attacks''
                       ''Use strong cipher suites (AES-256, SHA-256 or higher)''], u'))
             else ([], u3))
      in (f1 @ f2 @ f3 @ f4, u4))"

section \<open>The scanner\<close>

text \<open>
  What the scanner asks of the file system and of \<open>pathlib\<close> is collected in one record:
  whether a path is a file or a directory, what \<open>rglob('*')\<close> enumerates below a
  directory, the size \<open>stat\<close> reports, and what opening and reading a file gives, with
  \<open>None\<close> when either raises.
\<close>

record world =
  to_path :: "string \<Rightarrow> path"
  fmatch :: "path \<Rightarrow> string \<Rightarrow> bool"
  is_file :: "path \<Rightarrow> bool"
  is_dir :: "path \<Rightarrow> bool"
  rglob :: "path \<Rightarrow> path list"
  st_size :: "path \<Rightarrow> nat"
  read_text :: "path \<Rightarrow> string option"

definition should_skip_file :: "world \<Rightarrow> path \<Rightarrow> bool" where
  "should_skip_file w fp =
     (let skip_extensions = {''.pyc'', ''.pyo'', ''.exe'', ''.bin'', ''.so'', ''.dylib'', ''.dll''};
          skip_dirs = {''.git'', ''.svn'', ''__pycache__'', ''node_modules'', ''.venv'', ''venv''}
      in if path_suffix fp \<in> skip_extensions then True
         else if list_ex (\<lambda>part. part \<in> skip_dirs) (path_parts fp) then True
         else if st_size w fp > 10 * 1024 * 1024 then True
         else False)"

definition scan_single_file ::
  "world \<Rightarrow> Rule list \<Rightarrow> path \<Rightarrow> uuid_source \<Rightarrow> Finding list \<times> uuid_source"
where
  "scan_single_file w rules fp u =
     (case read_text w fp of
        None \<Rightarrow> ([], u)
      | Some content \<Rightarrow>
          (let (f1, u1) = scan_file (fmatch w) rules fp content u;
               (f2, u2) = (if path_suffix fp \<in> set [''.md'', ''.txt'', ''.doc'', ''.docx'']
                           then scan_document fp content u1 else ([], u1));
               (f3, u3) = (if path_suffix fp \<in> set [''.yml'', ''.yaml'', ''.json'', ''.conf'',
                                                      ''.ini'', ''.toml'']
                           then scan_config fp content u2 else ([], u2))
           in (f1 @ f2 @ f3, u3)))"

type_synonym finding_key = "string \<times> string \<times> string"

definition finding_key :: "Finding \<Rightarrow> finding_key" where
  "finding_key finding = (file_path finding, rule_id finding, line_range finding)"

definition dedup_step ::
  "finding_key set \<times> Finding list \<Rightarrow> Finding \<Rightarrow> finding_key set \<times> Finding list"
where
  \<comment> \<open>the body of the loop, on the pair \<open>(seen, deduplicated)\<close>\<close>
  "dedup_step st finding =
     (let key = finding_key finding
      in if key \<notin> fst st then (insert key (fst st), snd st @ [finding]) else st)"

definition deduplicate_findings :: "Finding list \<Rightarrow> Finding list" where
  "deduplicate_findings fs = snd (foldl dedup_step ({}, []) fs)"

definition severity_order :: "(string \<times> nat) list" where
  "severity_order = [(''critical'', 0), (''high'', 1), (''medium'', 2), (''low'', 3)]"

definition severity_rank :: "Finding \<Rightarrow> nat" where
  \<comment> \<open>the sort key \<open>severity_order.get(x.severity, 4)\<close>\<close>
  "severity_rank x =
     (case map_of severity_order (severity_value (severity x)) of Some r \<Rightarrow> r | None \<Rightarrow> 4)"

definition bump :: "(string \<rightharpoonup> nat) \<Rightarrow> string \<Rightarrow> (string \<rightharpoonup> nat)" where
  \<comment> \<open>\<open>counts[k] += 1\<close>; every key used is one the tally starts with\<close>
  "bump counts k = (case counts k of Some n \<Rightarrow> counts(k \<mapsto> n + 1) | None \<Rightarrow> counts)"

definition generate_summary :: "nat \<Rightarrow> Finding list \<Rightarrow> ScanSummary" where
  "generate_summary files_scanned fs =
     (let severity_counts = [''critical'' \<mapsto> 0, ''high'' \<mapsto> 0, ''medium'' \<mapsto> 0, ''low'' \<mapsto> 0];
          framework_counts = [''iso27001'' \<mapsto> 0, ''soc2'' \<mapsto> 0, ''gdpr'' \<mapsto> 0];
          (severity_counts, framework_counts) =
             foldl (\<lambda>(sc, fc) finding.
                      (bump sc (severity_value (severity finding)),
                       bump fc (framework_value (framework finding))))
                   (severity_counts, framework_counts) fs
      in \<lparr> total_files_scanned = files_scanned,
           total_findings = length fs,
           findings_by_severity = severity_counts,
           findings_by_framework = framework_counts \<rparr>)"

text \<open>
  The two loops of \<open>scan_paths\<close>, on the triple of the findings gathered, the number of
  files scanned and the source of identifiers.
\<close>

type_synonym scan_state = "Finding list \<times> nat \<times> uuid_source"

fun scan_dir_entries :: "world \<Rightarrow> Rule list \<Rightarrow> path list \<Rightarrow> scan_state \<Rightarrow> scan_state" where
  "scan_dir_entries w rules [] st = st"
| "scan_dir_entries w rules (fp # fps) (all_findings, files_scanned, u) =
     (if is_file w fp \<and> \<not> should_skip_file w fp
      then (let (found, u1) = scan_single_file w rules fp u
            in scan_dir_entries w rules fps (all_findings @ found, files_scanned + 1, u1))
      else scan_dir_entries w rules fps (all_findings, files_scanned, u))"

fun scan_each_path :: "world \<Rightarrow> Rule list \<Rightarrow> string list \<Rightarrow> scan_state \<Rightarrow> scan_state" where
  "scan_each_path w rules [] st = st"
| "scan_each_path w rules (pstr # paths) (all_findings, files_scanned, u) =
     (let fp = to_path w pstr
      in if is_file w fp
         then (let (found, u1) = scan_single_file w rules fp u
               in scan_each_path w rules paths (all_findings @ found, files_scanned + 1, u1))
         else if is_dir w fp
         then scan_each_path w rules paths
                (scan_dir_entries w rules (rglob w fp) (all_findings, files_scanned, u))
         else scan_each_path w rules paths (all_findings, files_scanned, u))"

definition filter_frameworks :: "Framework list option \<Rightarrow> Finding list \<Rightarrow> Finding list" where
  \<comment> \<open>\<open>if frameworks:\<close> holds for a list that is given and not empty\<close>
  "filter_frameworks frameworks fs =
     (case frameworks of
        None \<Rightarrow> fs
      | Some fws \<Rightarrow> if fws = [] then fs else filter (\<lambda>f. framework f \<in> set fws) fs)"

definition scan_paths ::
  "world \<Rightarrow> Rule list \<Rightarrow> string list \<Rightarrow> Framework list option \<Rightarrow> uuid_source \<Rightarrow> ScanResult"
where
  "scan_paths w rules paths frameworks u =
     (let (sid, u0) = uuid4 u;
          (all_findings, files_scanned, u1) = scan_each_path w rules paths ([], 0, u0);
          all_findings = filter_frameworks frameworks all_findings;
          all_findings = deduplicate_findings all_findings;
          all_findings = sort_key severity_rank all_findings;
          summary = generate_summary files_scanned all_findings;
          top_risks = take 10 (filter (\<lambda>f. severity_value (severity f) \<in> set [''critical'', ''high''])
                                      all_findings)
      in \<lparr> scan_id = sid, paths_scanned = paths, summary = summary,
           findings = all_findings, top_risks = top_risks \<rparr>)"

text \<open>
  \<open>list.sort\<close> is stable; \<open>sort_key\<close>, sorting by insertion, is the stable sort that stands
  for it. (A stable sort by a key has one possible result: the sorted list in which the
  elements of equal key keep their order.)
\<close>

section \<open>Notions used to state the properties\<close>

text \<open>
  The list that \<open>scan_paths\<close> holds just before it sorts: everything gathered from the
  paths, filtered by framework and de-duplicated.
\<close>

definition gathered ::
  "world \<Rightarrow> Rule list \<Rightarrow> string list \<Rightarrow> Framework list option \<Rightarrow> uuid_source \<Rightarrow> Finding list"
where
  "gathered w rules paths frameworks u =
     deduplicate_findings (filter_frameworks frameworks
        (fst (scan_each_path w rules paths ([], 0, snd (uuid4 u)))))"

text \<open>
  Keeping the first occurrence of every key, in the order of the list: position \<open>i\<close> stays
  exactly when no earlier position carries the same key.
\<close>

definition first_occurrences :: "Finding list \<Rightarrow> Finding list" where
  "first_occurrences xs =
     map (\<lambda>i. xs ! i)
         (filter (\<lambda>i. finding_key (xs ! i) \<notin> finding_key ` set (take i xs)) [0..<length xs])"

fun firsts :: "finding_key set \<Rightarrow> Finding list \<Rightarrow> Finding list" where
  "firsts seen [] = []"
| "firsts seen (x # xs) =
     (if finding_key x \<in> seen then firsts seen xs
      else x # firsts (insert (finding_key x) seen) xs)"

definition critical_or_high :: "Finding \<Rightarrow> bool" where
  "critical_or_high f = (severity f = CRITICAL \<or> severity f = HIGH)"


text \<open>A source of identifiers and the contents of the repository's own tests, for concrete runs.\<close>

definition example_uuids :: uuid_source where
  "example_uuids = (\<lambda>n. ''uuid-'' @ str_nat n)"

text \<open>
  The configuration detector, as a table: the test, the rule identifier, the framework, the
  control, the severity and the fixed evidence text of each of the four checks.
\<close>

definition config_checks ::
  "((string \<Rightarrow> bool) \<times> string \<times> Framework \<times> string \<times> Severity \<times> string) list" where
  "config_checks =
     [(re_search tls_rx, ''disabled_tls'', ISO27001, ''A.13'', HIGH,
         ''TLS/SSL disabled in configuration''),
      (\<lambda>c. re_search iam_rx1 c \<or> re_search iam_rx2 c, ''broad_iam'', SOC2, ''CC 6.2'', CRITICAL,
         ''Overly broad IAM permissions''),
      (re_search public_rx, ''public_storage'', GDPR, ''Article 32'', HIGH,
         ''Public storage configuration''),
      (re_search cipher_rx, ''weak_cipher'', ISO27001, ''A.10'', HIGH,
         ''Weak cipher suites configured'')]"

definition config_facts :: "Finding \<Rightarrow> string \<times> Framework \<times> string \<times> Severity \<times> string" where
  "config_facts f = (rule_id f, framework f, control_id f, severity f, evidence_snippet f)"

definition broad_iam_test_content :: string where
  \<open>broad_iam_test_content =
     ''\<newline>    {\<newline>      "Statement": [\<newline>        {\<newline>          "Effect": "Allow",\<newline>          "Action": "*",\<newline>          "Resource": "*"\<newline>        }\<newline>      ]\<newline>    }\<newline>    ''\<close>

definition disabled_tls_test_content :: string where
  "disabled_tls_test_content =
     ''\<newline>    database:\<newline>      ssl: false\<newline>      verify: false\<newline>    ''"

definition example_config_path :: path where
  "example_config_path = \<lparr> path_str = ''config.yml'', path_parts = [''config.yml''], path_suffix = ''.yml'' \<rparr>"

text \<open>
  The document detector. \<open>ci_substring k s\<close>: \<open>k\<close> occurs in \<open>s\<close> up to the case of
  letters. \<open>required_entries\<close> lists the table of required sections in its order.
\<close>

definition ci_substring :: "string \<Rightarrow> string \<Rightarrow> bool" where
  "ci_substring k s = (\<exists>pre w post. s = pre @ w @ post \<and> str_lower w = str_lower k)"

definition policy_words :: "string list" where
  "policy_words = [''policy'', ''procedure'', ''guideline'', ''standard'', ''privacy'', ''security'']"

definition required_entries :: "(Framework \<times> req_section) list" where
  "required_entries = concat (map (\<lambda>(fw, secs). map (Pair fw) secs) REQUIRED_SECTIONS)"

definition keywords_absent :: "string \<Rightarrow> Framework \<times> req_section \<Rightarrow> bool" where
  "keywords_absent content_lower e = (\<not> list_ex (\<lambda>k. str_in k content_lower) (fst (snd e)))"

definition gap_facts ::
  "Finding \<Rightarrow> Framework \<times> string \<times> Severity \<times> string \<times> Confidence \<times> bool \<times> string" where
  "gap_facts f = (framework f, control_id f, severity f, line_range f, mapping_confidence f,
                  needs_review f, evidence_snippet f)"

definition expected_gap ::
  "Framework \<times> req_section \<Rightarrow> Framework \<times> string \<times> Severity \<times> string \<times> Confidence \<times> bool \<times> string" where
  "expected_gap e = (fst e, snd (snd e), MEDIUM, ''1-end'', Conf_medium, True,
                     ''Missing section: '' @ join '', '' (fst (snd e)))"

definition gap_test_content :: string where
  "gap_test_content = ''\<newline>    Privacy Policy\<newline>    \<newline>    We collect personal data to provide services.\<newline>    We protect data with security measures.\<newline>    Contact us for questions.\<newline>    ''"

definition example_doc_path :: path where
  "example_doc_path = \<lparr> path_str = ''privacy-policy.md'', path_parts = [''privacy-policy.md''],
                         path_suffix = ''.md'' \<rparr>"

text \<open>
  The pattern matcher. The line number of an offset is one plus the number of newlines
  before it; the evidence window holds the lines from two before the line of the start of
  a match to two after the line of its end, as far as the text has them.
\<close>

definition line_number :: "string \<Rightarrow> nat \<Rightarrow> nat" where
  "line_number content off = 1 + length (filter (\<lambda>c. c = newline) (take off content))"

definition evidence_window :: "string \<Rightarrow> nat \<Rightarrow> nat \<Rightarrow> string list" where
  "evidence_window content mstart mend =
     (let lines = split_on newline content
      in map (\<lambda>i. lines ! i)
           (filter (\<lambda>i. int (line_number content mstart) - 2 \<le> int (i + 1) \<and>
                        i + 1 \<le> line_number content mend + 2)
                   [0..<length lines]))"

definition without_id :: "Finding \<Rightarrow> Finding" where
  "without_id f = f\<lparr>finding_id := []\<rparr>"

definition expected_match_finding :: "Rule \<Rightarrow> path \<Rightarrow> string \<Rightarrow> nat \<times> nat \<Rightarrow> Finding" where
  "expected_match_finding rule fp content span =
     \<lparr> finding_id = [], rule_id = r_id rule, framework = r_framework rule,
       control_id = r_control_id rule, severity = r_severity rule,
       file_path = path_str fp,
       line_range = str_nat (line_number content (fst span)) @ ''-'' @
                    str_nat (line_number content (snd span)),
       evidence_snippet =
         redact_sensitive_data (join [newline] (evidence_window content (fst span) (snd span))),
       why_it_matters = r_why_it_matters rule,
       remediation_steps = r_remediation_steps rule,
       mapping_confidence = r_mapping_confidence rule,
       needs_review = r_needs_review rule \<rparr>"

definition nat_of_decimal :: "string \<Rightarrow> nat" where
  "nat_of_decimal s = foldl (\<lambda>a c. 10 * a + (of_char c - 48)) 0 s"

text \<open>
  The files \<open>scan_paths\<close> hands to \<open>scan_single_file\<close>, in order: a path that is a file,
  as it is; below a directory, the files that the skip policy lets through. \<open>scan_step\<close>
  is one round of the loop.
\<close>

definition files_to_scan :: "world \<Rightarrow> string list \<Rightarrow> path list" where
  "files_to_scan w paths =
     concat (map (\<lambda>pstr. let fp = to_path w pstr
                          in if is_file w fp then [fp]
                             else if is_dir w fp
                             then filter (\<lambda>e. is_file w e \<and> \<not> should_skip_file w e) (rglob w fp)
                             else [])
                 paths)"

definition scan_step :: "world \<Rightarrow> Rule list \<Rightarrow> scan_state \<Rightarrow> path \<Rightarrow> scan_state" where
  "scan_step w rules st fp =
     (let found = scan_single_file w rules fp (snd (snd st))
      in (fst st @ fst found, fst (snd st) + 1, snd found))"

definition unreadable_world :: world where
  "unreadable_world =
     \<lparr> to_path = (\<lambda>s. \<lparr> path_str = s, path_parts = [s], path_suffix = [] \<rparr>),
       fmatch = (\<lambda>fp glob. True),
       is_file = (\<lambda>fp. True),
       is_dir = (\<lambda>fp. False),
       rglob = (\<lambda>fp. []),
       st_size = (\<lambda>fp. 0),
       read_text = (\<lambda>fp. None) \<rparr>"


text \<open>
  What a pattern matches, said without the search: \<open>sem r p w n\<close> holds when \<open>r\<close>
  matches the text \<open>w\<close> standing between the character \<open>p\<close> before it and the character
  \<open>n\<close> after it (\<open>None\<close> at either end of the whole text). \<open>prv p w\<close> is the last
  character of \<open>w\<close>, or \<open>p\<close> when \<open>w\<close> is empty: the character before what follows \<open>w\<close>.
  \<open>nxt w n\<close> is the first character of \<open>w\<close>, or \<open>n\<close> when \<open>w\<close> is empty.
\<close>

fun prv :: "char option \<Rightarrow> string \<Rightarrow> char option" where
  "prv p w = (if w = [] then p else Some (last w))"

fun nxt :: "string \<Rightarrow> char option \<Rightarrow> char option" where
  "nxt [] n = n"
| "nxt (c # cs) n = Some c"

inductive sem :: "rx \<Rightarrow> char option \<Rightarrow> string \<Rightarrow> char option \<Rightarrow> bool" where
  sem_Atom: "P c \<Longrightarrow> sem (Atom P) p [c] n"
| sem_Eps: "sem Eps p [] n"
| sem_WordB: "wordo p \<noteq> wordo n \<Longrightarrow> sem WordB p [] n"
| sem_Seq: "sem a p u (nxt v n) \<Longrightarrow> sem b (prv p u) v n \<Longrightarrow> sem (Seq a b) p (u @ v) n"
| sem_AltL: "sem a p w n \<Longrightarrow> sem (Alt a b) p w n"
| sem_AltR: "sem b p w n \<Longrightarrow> sem (Alt a b) p w n"
| sem_Star0: "sem (Star a) p [] n"
| sem_StarS: "u \<noteq> [] \<Longrightarrow> sem a p u (nxt v n) \<Longrightarrow> sem (Star a) (prv p u) v n
               \<Longrightarrow> sem (Star a) p (u @ v) n"

text \<open>
  Measures of a pattern: whether it is free of \<open>\b\<close>, the least length of a match, the
  characters a match can hold. \<open>max_run A s\<close> is the length of the longest run of
  characters of \<open>A\<close> in \<open>s\<close>.

  The four patterns of the redaction are delimited: a core pattern between two word
  boundaries. \<open>delim r\<close> says so, and that no match of the core is empty, holds a star or
  lies inside a mask.
\<close>

fun wb_free :: "rx \<Rightarrow> bool" where
  "wb_free WordB = False"
| "wb_free (Seq a b) = (wb_free a \<and> wb_free b)"
| "wb_free (Alt a b) = (wb_free a \<and> wb_free b)"
| "wb_free (Star a) = wb_free a"
| "wb_free r = True"

fun min_len :: "rx \<Rightarrow> nat" where
  "min_len (Atom P) = 1"
| "min_len (Seq a b) = min_len a + min_len b"
| "min_len (Alt a b) = min (min_len a) (min_len b)"
| "min_len r = 0"

fun allowed :: "rx \<Rightarrow> char \<Rightarrow> bool" where
  "allowed (Atom P) c = P c"
| "allowed (Seq a b) c = (allowed a c \<or> allowed b c)"
| "allowed (Alt a b) c = (allowed a c \<or> allowed b c)"
| "allowed (Star a) c = allowed a c"
| "allowed r c = False"

fun max_run :: "(char \<Rightarrow> bool) \<Rightarrow> string \<Rightarrow> nat" where
  "max_run A [] = 0"
| "max_run A (c # cs) = max (length (takeWhile A (c # cs))) (max_run A cs)"

definition masks :: "string list" where
  "masks = [email_mask, card_mask, phone_mask, token_mask]"

definition delim :: "rx \<Rightarrow> bool" where
  "delim r = (\<exists>core.
      (\<forall>p w n. sem r p w n =
                 (core w \<and> wordo p \<noteq> wordo (nxt w n) \<and> wordo (prv p w) \<noteq> wordo n)) \<and>
      (\<forall>w. core w \<longrightarrow> w \<noteq> [] \<and> CHR ''*'' \<notin> set w \<and> (\<forall>m \<in> set masks. \<not> sublist w m)))"

text \<open>The cores of the four patterns of the redaction.\<close>

definition email_parts :: "rx list" where
  "email_parts = [plus (Atom email_local), lit CHR ''@'', plus (Atom email_domain),
                  lit CHR ''.'', at_least 2 (Atom email_tld)]"

definition card_parts :: "rx list" where
  "card_parts = [rep 4 (Atom is_digit), opt (one_of ''- ''),
                 rep 4 (Atom is_digit), opt (one_of ''- ''),
                 rep 4 (Atom is_digit), opt (one_of ''- ''),
                 rep 4 (Atom is_digit)]"

definition phone_parts :: "rx list" where
  "phone_parts = [rep 3 (Atom is_digit), opt (one_of ''- ''),
                  rep 3 (Atom is_digit), opt (one_of ''- ''),
                  rep 4 (Atom is_digit)]"

definition token_parts :: "rx list" where
  "token_parts = [at_least 20 (Atom token_char)]"

text \<open>
  \<open>here r p s\<close>: a match of \<open>r\<close> starts at the front of \<open>s\<close>, after the character \<open>p\<close>.
  \<open>occ r p x\<close>: a match of \<open>r\<close> starts somewhere in \<open>x\<close>. \<open>ctx_rel\<close> relates the
  character before a position of the text scanned to the character before the same
  position of the text written: the same, or a non-word character where the text scanned
  had a word boundary.
\<close>

definition here :: "rx \<Rightarrow> char option \<Rightarrow> string \<Rightarrow> bool" where
  "here r p s = (\<exists>w v. s = w @ v \<and> sem r p w (hdo v))"

definition occ :: "rx \<Rightarrow> char option \<Rightarrow> string \<Rightarrow> bool" where
  "occ r p x = (\<exists>u v. x = u @ v \<and> here r (prv p u) v)"

definition ctx_rel :: "char option \<Rightarrow> char option \<Rightarrow> string \<Rightarrow> bool" where
  "ctx_rel p_in p_out s = (p_out = p_in \<or> (\<not> wordo p_out \<and> wordo p_in \<noteq> wordo (hdo s)))"


section \<open>Ordering, de-duplication and top risks\<close>

lemma scan_paths_findings:
  "findings (scan_paths w rules paths frameworks u) =
     sort_key severity_rank (gathered w rules paths frameworks u)"
  by (simp add: scan_paths_def gathered_def Let_def split: prod.splits)

lemma severity_rank_cases:
  "severity_rank f = (case severity f of CRITICAL \<Rightarrow> 0 | HIGH \<Rightarrow> 1 | MEDIUM \<Rightarrow> 2 | LOW \<Rightarrow> 3)"
  by (cases "severity f") (simp_all add: severity_rank_def severity_order_def)

text \<open>
  C1. The findings of a result are sorted by severity rank (critical 0, high 1, medium 2,
  low 3), and the sort is stable: the findings of any one rank stand in the order they had
  before sorting. The severity of a finding is one of the four values of the enumeration,
  so the default rank 4 of the lookup is never taken.
\<close>

theorem findings_sorted_stable:
  "sorted (map severity_rank (findings (scan_paths w rules paths frameworks u))) \<and>
   filter (\<lambda>f. severity_rank f = k) (findings (scan_paths w rules paths frameworks u)) =
     filter (\<lambda>f. severity_rank f = k) (gathered w rules paths frameworks u) \<and>
   severity_rank f = (case severity f of CRITICAL \<Rightarrow> 0 | HIGH \<Rightarrow> 1 | MEDIUM \<Rightarrow> 2 | LOW \<Rightarrow> 3)"
proof -
  have "sorted (map severity_rank (sort_key severity_rank (gathered w rules paths frameworks u)))"
    by (rule sorted_sort_key)
  then show ?thesis
    using severity_rank_cases[of f] by (simp only: scan_paths_findings sort_key_stable simp_thms)
qed

lemma foldl_dedup_step:
  "foldl dedup_step (seen, out) xs = (seen \<union> finding_key ` set xs, out @ firsts seen xs)"
  by (induction xs arbitrary: seen out) (auto simp: dedup_step_def Let_def)

lemma deduplicate_firsts: "deduplicate_findings xs = firsts {} xs"
  by (simp add: deduplicate_findings_def foldl_dedup_step)

lemma upt_shift: "[0..<Suc n] = 0 # map Suc [0..<n]"
  by (simp add: upt_conv_Cons map_Suc_upt del: upt_Suc)

lemma nth_filter_upt_Cons:
  "map (\<lambda>i. (x # xs) ! i) (filter P [0..<Suc n]) =
     (if P 0 then [x] else []) @ map (\<lambda>i. xs ! i) (filter (\<lambda>i. P (Suc i)) [0..<n])"
  by (subst upt_shift) (simp add: filter_map comp_def del: upt_Suc)

lemma firsts_nth:
  "firsts seen xs =
     map (\<lambda>i. xs ! i)
       (filter (\<lambda>i. finding_key (xs ! i) \<notin> seen \<union> finding_key ` set (take i xs))
               [0..<length xs])"
proof (induction xs arbitrary: seen)
  case Nil
  show ?case by simp
next
  case (Cons x xs)
  let ?P = "\<lambda>i. finding_key ((x # xs) ! i) \<notin> seen \<union> finding_key ` set (take i (x # xs))"
  have split: "map (\<lambda>i. (x # xs) ! i) (filter ?P [0..<length (x # xs)]) =
      (if ?P 0 then [x] else []) @ map (\<lambda>i. xs ! i) (filter (\<lambda>i. ?P (Suc i)) [0..<length xs])"
    using nth_filter_upt_Cons[of x xs ?P "length xs"] by simp
  show ?case
  proof (cases "finding_key x \<in> seen")
    case True
    then have "(\<lambda>i. ?P (Suc i)) =
               (\<lambda>i. finding_key (xs ! i) \<notin> seen \<union> finding_key ` set (take i xs))"
      by auto
    with True show ?thesis
      by (simp only: split firsts.simps Cons.IH[of seen]) simp
  next
    case False
    have "(\<lambda>i. ?P (Suc i)) =
          (\<lambda>i. finding_key (xs ! i) \<notin> insert (finding_key x) seen \<union> finding_key ` set (take i xs))"
      by auto
    with False show ?thesis
      by (simp only: split firsts.simps Cons.IH[of "insert (finding_key x) seen"]) simp
  qed
qed

lemma firsts_keys_distinct:
  "distinct (map finding_key (firsts seen xs)) \<and> finding_key ` set (firsts seen xs) \<inter> seen = {}"
proof (induction xs arbitrary: seen)
  case Nil
  show ?case by simp
next
  case (Cons x xs)
  from Cons.IH[of seen] Cons.IH[of "insert (finding_key x) seen"] show ?case by auto
qed

lemma distinct_keys_sort:
  "distinct (map finding_key (sort_key severity_rank xs)) = distinct (map finding_key xs)"
  by (simp add: distinct_map)

text \<open>
  C2. De-duplication keeps exactly the first occurrence of every key (file path, rule
  identifier, line range) and keeps the first-seen order; so no two findings of a result
  share a key.
\<close>

theorem dedup_first_occurrence:
  "deduplicate_findings xs = first_occurrences xs \<and>
   distinct (map finding_key (findings (scan_paths w rules paths frameworks u)))"
proof -
  have "deduplicate_findings xs = first_occurrences xs"
    using firsts_nth[of "{}" xs] by (simp add: deduplicate_firsts first_occurrences_def)
  moreover have "distinct (map finding_key (findings (scan_paths w rules paths frameworks u)))"
    using firsts_keys_distinct[of "{}"]
    by (simp only: scan_paths_findings distinct_keys_sort gathered_def deduplicate_firsts)
  ultimately show ?thesis by simp
qed

lemma scan_paths_top_risks:
  "top_risks (scan_paths w rules paths frameworks u) =
     take 10 (filter (\<lambda>f. severity_value (severity f) \<in> set [''critical'', ''high''])
        (findings (scan_paths w rules paths frameworks u)))"
  by (simp add: scan_paths_def Let_def split: prod.splits)

lemma critical_or_high_value:
  "(severity_value (severity f) \<in> set [''critical'', ''high'']) = critical_or_high f"
  by (cases "severity f") (simp_all add: critical_or_high_def)

text \<open>
  C8. The top risks are the first ten findings, in the sorted order, whose severity is
  critical or high: a prefix of the sorted findings filtered to critical and high, of
  length at most ten, holding critical and high findings only.
\<close>

theorem top_risks_prefix:
  "top_risks (scan_paths w rules paths frameworks u) =
     take 10 (filter critical_or_high (findings (scan_paths w rules paths frameworks u))) \<and>
   prefix (top_risks (scan_paths w rules paths frameworks u))
          (filter critical_or_high (findings (scan_paths w rules paths frameworks u))) \<and>
   length (top_risks (scan_paths w rules paths frameworks u)) \<le> 10 \<and>
   set (map severity (top_risks (scan_paths w rules paths frameworks u))) \<subseteq> {CRITICAL, HIGH}"
proof -
  let ?fs = "findings (scan_paths w rules paths frameworks u)"
  have eq: "top_risks (scan_paths w rules paths frameworks u) =
            take 10 (filter critical_or_high ?fs)"
    by (simp only: scan_paths_top_risks critical_or_high_value)
  have "set (take 10 (filter critical_or_high ?fs)) \<subseteq> {f. critical_or_high f}"
    using set_take_subset[of 10 "filter critical_or_high ?fs"] by auto
  then have "set (map severity (take 10 (filter critical_or_high ?fs))) \<subseteq> {CRITICAL, HIGH}"
    by (auto simp: critical_or_high_def)
  with eq show ?thesis by (simp add: take_is_prefix)
qed


section \<open>Searching a text\<close>

lemma search_from_here: "ms r (p, s) \<noteq> [] \<Longrightarrow> search_from r p s"
  by (cases s) simp_all

lemma search_from_append:
  "ms r (if pre = [] then p else Some (last pre), s) \<noteq> [] \<Longrightarrow> search_from r p (pre @ s)"
proof (induction pre arbitrary: p)
  case Nil
  then show ?case by (simp add: search_from_here)
next
  case (Cons c pre)
  from Cons.prems have "ms r (if pre = [] then Some c else Some (last pre), s) \<noteq> []"
    by (simp split: if_splits)
  from Cons.IH[OF this] show ?case by simp
qed

lemma str_in_decomp: "str_in k s = (\<exists>pre post. s = pre @ k @ post)"
proof (induction s)
  case Nil
  show ?case by auto
next
  case (Cons c cs)
  show ?case
  proof
    assume "str_in k (c # cs)"
    then consider "prefix k (c # cs)" | "str_in k cs" by auto
    then show "\<exists>pre post. c # cs = pre @ k @ post"
    proof cases
      case 1
      then obtain post where "c # cs = k @ post" by (auto simp: prefix_def)
      then have "c # cs = [] @ k @ post" by simp
      then show ?thesis by blast
    next
      case 2
      with Cons.IH obtain pre post where "cs = pre @ k @ post" by auto
      then have "c # cs = (c # pre) @ k @ post" by simp
      then show ?thesis by blast
    qed
  next
    assume "\<exists>pre post. c # cs = pre @ k @ post"
    then obtain pre post where eq: "c # cs = pre @ k @ post" by auto
    show "str_in k (c # cs)"
    proof (cases pre)
      case Nil
      with eq have "prefix k (c # cs)" by (simp add: prefix_def)
      then show ?thesis by simp
    next
      case (Cons a pre')
      with eq have "cs = pre' @ k @ post" by simp
      with Cons.IH have "str_in k cs" by auto
      then show ?thesis by simp
    qed
  qed
qed

lemma lower_char_simps:
  "lower_char CHR ''s'' = CHR ''s''" "lower_char CHR ''l'' = CHR ''l''"
  "lower_char CHR ''f'' = CHR ''f''" "lower_char CHR ''a'' = CHR ''a''"
  "lower_char CHR ''e'' = CHR ''e''" "lower_char CHR '':'' = CHR '':''" "lower_char CHR '' '' = CHR '' ''"
  by (simp_all add: lower_char_def upper_chars_def lower_chars_def)

lemma tls_match_here: "ms tls_rx (p, ''ssl: false'' @ post) \<noteq> []"
  by (simp add: tls_rx_def alts_def seqs_def istr_def ilit_def space_star_def one_of_def
        lower_char_simps is_space_def)

lemma tls_found: "str_in ''ssl: false'' content \<Longrightarrow> re_search tls_rx content"
proof -
  assume "str_in ''ssl: false'' content"
  then obtain pre post where "content = pre @ ''ssl: false'' @ post"
    by (auto simp: str_in_decomp)
  then show ?thesis
    unfolding re_search_def using search_from_append[OF tls_match_here] by simp
qed

section \<open>The configuration detector\<close>

lemma scan_config_facts:
  "map config_facts (fst (scan_config fp content u)) =
     map snd (filter (\<lambda>(chk, _). chk content) config_checks)"
  by (simp add: scan_config_def config_checks_def config_facts_def create_config_finding_def
        uuid4_def Let_def split: prod.splits)

lemma scan_config_fixed:
  "list_all (\<lambda>f. mapping_confidence f = Conf_high \<and> line_range f = ''1-end'' \<and> \<not> needs_review f)
     (fst (scan_config fp content u))"
  by (simp add: scan_config_def create_config_finding_def uuid4_def Let_def split: prod.splits)

lemma scan_config_tls:
  "re_search tls_rx content \<Longrightarrow>
   map (\<lambda>f. (severity f, framework f))
       (filter (\<lambda>f. rule_id f = ''disabled_tls'') (fst (scan_config fp content u))) =
     [(HIGH, ISO27001)]"
  by (simp add: scan_config_def create_config_finding_def uuid4_def Let_def split: prod.splits)

lemma scan_config_no_iam:
  "\<not> re_search iam_rx1 content \<Longrightarrow> \<not> re_search iam_rx2 content \<Longrightarrow>
   filter (\<lambda>f. rule_id f = ''broad_iam'') (fst (scan_config fp content u)) = []"
  by (simp add: scan_config_def create_config_finding_def uuid4_def Let_def split: prod.splits)

text \<open>
  C7. Every check of the configuration detector that matches gives exactly one finding,
  whatever the number of matches; its evidence is the fixed text of the check and its
  confidence is high. A text in which \<open>ssl: false\<close> occurs gives exactly one
  \<open>disabled_tls\<close> finding, of severity high and framework ISO 27001.
\<close>

theorem config_checks_once:
  "map config_facts (fst (scan_config fp content u)) =
     map snd (filter (\<lambda>(chk, _). chk content) config_checks) \<and>
   list_all (\<lambda>f. mapping_confidence f = Conf_high \<and> line_range f = ''1-end'' \<and> \<not> needs_review f)
     (fst (scan_config fp content u)) \<and>
   (str_in ''ssl: false'' content \<longrightarrow>
      map (\<lambda>f. (severity f, framework f))
          (filter (\<lambda>f. rule_id f = ''disabled_tls'') (fst (scan_config fp content u))) =
        [(HIGH, ISO27001)])"
  using scan_config_facts scan_config_fixed scan_config_tls[OF tls_found] by blast

lemma tls_test_has: "str_in ''ssl: false'' disabled_tls_test_content"
  by code_simp

theorem config_checks_once_witness:
  "str_in ''ssl: false'' disabled_tls_test_content \<and>
   map (\<lambda>f. (severity f, framework f))
       (filter (\<lambda>f. rule_id f = ''disabled_tls'')
          (fst (scan_config example_config_path disabled_tls_test_content example_uuids))) =
     [(HIGH, ISO27001)]"
  using config_checks_once[of example_config_path disabled_tls_test_content example_uuids]
        tls_test_has by simp

lemma iam1_test: "re_search iam_rx1 broad_iam_test_content = False"
  by code_simp

lemma iam2_test: "re_search iam_rx2 broad_iam_test_content = False"
  by code_simp

lemma iam_test_has:
  \<open>str_in ''"Action": "*"'' broad_iam_test_content \<and> str_in ''"Resource": "*"'' broad_iam_test_content\<close>
  by code_simp

text \<open>
  C4. The claim asks for a broad-permissions finding also when the two pairs stand on
  different lines. The content of the repository's own test has \<open>"Action": "*"\<close> and
  \<open>"Resource": "*"\<close> on consecutive lines, and the test expects the finding; the
  detector gives none, since \<open>.*\<close> does not pass a newline.
\<close>

theorem broad_iam_test_missed:
  \<open>str_in ''"Action": "*"'' broad_iam_test_content \<and>
   str_in ''"Resource": "*"'' broad_iam_test_content \<and>
   filter (\<lambda>f. rule_id f = ''broad_iam'') (fst (scan_config fp broad_iam_test_content u)) = []\<close>
  using iam_test_has scan_config_no_iam[of broad_iam_test_content fp u] iam1_test iam2_test
  by simp

section \<open>The document detector\<close>

text \<open>
  Every entry of the table has a keyword, so \<open>keywords[0]\<close> in the body of the loop is
  always there.
\<close>

lemma required_keywords_nonempty:
  "list_all (\<lambda>(fw, secs). list_all (\<lambda>sec. fst sec \<noteq> []) secs) REQUIRED_SECTIONS"
  by (simp add: REQUIRED_SECTIONS_def)

lemma ci_substring_lower: "ci_substring k s = str_in (str_lower k) (str_lower s)"
proof
  assume "ci_substring k s"
  then obtain pre w post where "s = pre @ w @ post" "str_lower w = str_lower k"
    by (auto simp: ci_substring_def)
  then have "str_lower s = str_lower pre @ str_lower k @ str_lower post"
    by (simp add: str_lower_def)
  then show "str_in (str_lower k) (str_lower s)"
    unfolding str_in_decomp by blast
next
  assume "str_in (str_lower k) (str_lower s)"
  then obtain a b where "map lower_char s = a @ map lower_char k @ b"
    by (auto simp: str_in_decomp str_lower_def)
  then obtain pre rest where s: "s = pre @ rest" and r: "map lower_char rest = map lower_char k @ b"
    by (metis map_eq_append_conv)
  from r obtain w post where "rest = w @ post" and "map lower_char w = map lower_char k"
    by (metis map_eq_append_conv)
  with s show "ci_substring k s"
    unfolding ci_substring_def str_lower_def by blast
qed

lemma policy_words_lower: "map str_lower policy_words = policy_words"
  by (simp add: policy_words_def str_lower_def lower_char_def upper_chars_def lower_chars_def)

lemma is_policy_document_ci:
  "is_policy_document content = list_ex (\<lambda>k. ci_substring k content) policy_words"
proof -
  have "list_ex (\<lambda>k. ci_substring k content) policy_words =
        list_ex (\<lambda>k. str_in k (str_lower content)) (map str_lower policy_words)"
    by (simp only: ci_substring_lower list_ex_iff set_map bex_simps)
  also have "\<dots> = list_ex (\<lambda>k. str_in k (str_lower content)) policy_words"
    by (simp only: policy_words_lower)
  also have "\<dots> = is_policy_document content"
    by (simp only: is_policy_document_def Let_def policy_words_def)
  finally show ?thesis by simp
qed

lemma gap_facts_gap_finding: "gap_facts (gap_finding i fw sec fp) = expected_gap (fw, sec)"
  by (simp add: gap_facts_def gap_finding_def expected_gap_def)

lemma scan_sections_facts:
  "map gap_facts (fst (scan_sections fw secs fp cl u)) =
     map expected_gap (filter (keywords_absent cl) (map (Pair fw) secs))"
  by (induction secs arbitrary: u)
     (simp_all add: keywords_absent_def gap_facts_gap_finding uuid4_def Let_def split_beta)

lemma scan_frameworks_facts:
  "map gap_facts (fst (scan_frameworks table fp cl u)) =
     map expected_gap (filter (keywords_absent cl)
        (concat (map (\<lambda>(fw, secs). map (Pair fw) secs) table)))"
proof (induction table arbitrary: u)
  case Nil
  show ?case by simp
next
  case (Cons e table)
  obtain fw secs where e: "e = (fw, secs)" by (cases e)
  obtain found u1 where s: "scan_sections fw secs fp cl u = (found, u1)" by (cases "scan_sections fw secs fp cl u")
  have "map gap_facts found = map expected_gap (filter (keywords_absent cl) (map (Pair fw) secs))"
    using scan_sections_facts[of fw secs fp cl u] s by simp
  with Cons.IH[of u1] show ?case
    by (simp add: e s split_beta)
qed

lemma str_in_middle: "str_in (a @ b @ c) s \<Longrightarrow> str_in b s"
proof -
  assume "str_in (a @ b @ c) s"
  then obtain pre post where "s = pre @ (a @ b @ c) @ post" unfolding str_in_decomp by blast
  then have "s = (pre @ a) @ b @ (c @ post)" by simp
  then show ?thesis unfolding str_in_decomp by blast
qed

lemma retention_absent:
  assumes "\<not> ci_substring ''retention'' content"
  shows "keywords_absent (str_lower content)
           (GDPR, [''data retention'', ''retention period''], ''Article 5'')"
proof -
  have l: "str_lower ''retention'' = ''retention''"
    by (simp add: str_lower_def lower_char_def upper_chars_def lower_chars_def)
  from assms have n: "\<not> str_in ''retention'' (str_lower content)"
    by (simp add: ci_substring_lower l)
  have "\<not> str_in ''data retention'' (str_lower content)"
    using str_in_middle[of "''data ''" "''retention''" "[]" "str_lower content"] n by auto
  moreover have "\<not> str_in ''retention period'' (str_lower content)"
    using str_in_middle[of "[]" "''retention''" "'' period''" "str_lower content"] n by auto
  ultimately show ?thesis by (simp add: keywords_absent_def)
qed

text \<open>
  C6. A text in which none of the six indicator words occurs, up to case, gives no finding.
  Otherwise, every entry of the table whose keywords are all absent from the lower-cased
  text gives exactly one finding: severity medium, line range \<open>1-end\<close>, confidence
  medium, review required, the evidence naming the keywords. A text with \<open>privacy\<close>
  and without \<open>retention\<close> gives the finding for the retention section.
\<close>

theorem document_gap_findings:
  "(\<not> list_ex (\<lambda>k. ci_substring k content) policy_words \<longrightarrow>
      scan_document fp content u = ([], u)) \<and>
   (list_ex (\<lambda>k. ci_substring k content) policy_words \<longrightarrow>
      map gap_facts (fst (scan_document fp content u)) =
        map expected_gap (filter (keywords_absent (str_lower content)) required_entries)) \<and>
   (ci_substring ''privacy'' content \<and> \<not> ci_substring ''retention'' content \<longrightarrow>
      (GDPR, ''Article 5'', MEDIUM, ''1-end'', Conf_medium, True,
         ''Missing section: data retention, retention period'')
        \<in> set (map gap_facts (fst (scan_document fp content u))))"
proof (intro conjI impI)
  assume "\<not> list_ex (\<lambda>k. ci_substring k content) policy_words"
  then show "scan_document fp content u = ([], u)"
    by (simp add: scan_document_def is_policy_document_ci)
next
  assume "list_ex (\<lambda>k. ci_substring k content) policy_words"
  then show "map gap_facts (fst (scan_document fp content u)) =
        map expected_gap (filter (keywords_absent (str_lower content)) required_entries)"
    by (simp add: scan_document_def is_policy_document_ci scan_frameworks_facts required_entries_def)
next
  assume a: "ci_substring ''privacy'' content \<and> \<not> ci_substring ''retention'' content"
  then have pol: "list_ex (\<lambda>k. ci_substring k content) policy_words"
    by (simp add: policy_words_def)
  let ?e = "(GDPR, [''data retention'', ''retention period''], ''Article 5'')"
  have "?e \<in> set required_entries"
    by (simp add: required_entries_def REQUIRED_SECTIONS_def)
  moreover have "keywords_absent (str_lower content) ?e"
    using a by (simp add: retention_absent)
  ultimately have "expected_gap ?e \<in>
      set (map expected_gap (filter (keywords_absent (str_lower content)) required_entries))"
    by simp
  moreover have "expected_gap ?e = (GDPR, ''Article 5'', MEDIUM, ''1-end'', Conf_medium, True,
         ''Missing section: data retention, retention period'')"
    by (simp add: expected_gap_def)
  ultimately show "(GDPR, ''Article 5'', MEDIUM, ''1-end'', Conf_medium, True,
         ''Missing section: data retention, retention period'')
        \<in> set (map gap_facts (fst (scan_document fp content u)))"
    using pol by (simp add: scan_document_def is_policy_document_ci scan_frameworks_facts
                    required_entries_def)
qed

lemma gap_test_privacy: "ci_substring ''privacy'' gap_test_content"
  unfolding ci_substring_lower by code_simp

lemma gap_test_retention: "\<not> ci_substring ''retention'' gap_test_content"
  unfolding ci_substring_lower by code_simp

lemma no_policy_word: "\<not> list_ex (\<lambda>k. ci_substring k ''ssl: false'') policy_words"
  unfolding ci_substring_lower by code_simp

theorem document_gap_findings_witness:
  "\<not> list_ex (\<lambda>k. ci_substring k ''ssl: false'') policy_words \<and>
   scan_document example_doc_path ''ssl: false'' example_uuids = ([], example_uuids) \<and>
   list_ex (\<lambda>k. ci_substring k gap_test_content) policy_words \<and>
   ci_substring ''privacy'' gap_test_content \<and> \<not> ci_substring ''retention'' gap_test_content \<and>
   map gap_facts (fst (scan_document example_doc_path gap_test_content example_uuids)) =
     map expected_gap (filter (keywords_absent (str_lower gap_test_content)) required_entries) \<and>
   (GDPR, ''Article 5'', MEDIUM, ''1-end'', Conf_medium, True,
      ''Missing section: data retention, retention period'')
     \<in> set (map gap_facts (fst (scan_document example_doc_path gap_test_content example_uuids)))"
proof -
  have pol: "list_ex (\<lambda>k. ci_substring k gap_test_content) policy_words"
    using gap_test_privacy by (simp add: policy_words_def)
  show ?thesis
    using document_gap_findings[of "''ssl: false''" example_doc_path example_uuids]
          document_gap_findings[of gap_test_content example_doc_path example_uuids]
          no_policy_word pol gap_test_privacy gap_test_retention
    by blast
qed

section \<open>The pattern matcher\<close>

lemma filter_interval_upt: "filter (\<lambda>i. a \<le> i \<and> i < b) [0..<n] = [a..<min b n]"
proof (induction n)
  case 0
  show ?case by simp
next
  case (Suc n)
  show ?case
  proof (cases "n < b")
    case True
    then have m: "min b (Suc n) = Suc n" "min b n = n" by simp_all
    show ?thesis using Suc True by (cases "a \<le> n") (simp_all add: m)
  next
    case False
    then have m: "min b (Suc n) = b" "min b n = b" by simp_all
    show ?thesis using Suc False by (simp add: m)
  qed
qed

lemma slice_nth: "py_slice a b xs = map (\<lambda>i. xs ! i) [a..<min b (length xs)]"
proof -
  have t: "take k (drop a xs) = map (\<lambda>i. xs ! i) [a..<min (a + k) (length xs)]" for k
  proof (rule nth_equalityI)
    show "length (take k (drop a xs)) = length (map (\<lambda>i. xs ! i) [a..<min (a + k) (length xs)])"
      by auto
  next
    fix i
    assume "i < length (take k (drop a xs))"
    then have i: "i < k" "a + i < length xs" by auto
    then have "[a..<min (a + k) (length xs)] ! i = a + i" by simp
    with i show "take k (drop a xs) ! i = map (\<lambda>i. xs ! i) [a..<min (a + k) (length xs)] ! i"
      by simp
  qed
  show ?thesis
  proof (cases "a \<le> b")
    case True
    then show ?thesis using t[of "b - a"] by (simp add: py_slice_def)
  next
    case False
    then show ?thesis by (simp add: py_slice_def)
  qed
qed

lemma extract_evidence_window:
  "extract_evidence content mstart mend = join [newline] (evidence_window content mstart mend)"
proof -
  let ?lines = "split_on newline content"
  let ?sl = "count_char newline (take mstart content)"
  let ?el = "count_char newline (take mend content)"
  have "filter (\<lambda>i. int (line_number content mstart) - 2 \<le> int (i + 1) \<and>
                     i + 1 \<le> line_number content mend + 2) [0..<length ?lines] =
        filter (\<lambda>i. nat (max 0 (int ?sl - 2)) \<le> i \<and> i < ?el + 3) [0..<length ?lines]"
    by (rule filter_cong) (auto simp: line_number_def count_char_def)
  then have w: "evidence_window content mstart mend =
        map (\<lambda>i. ?lines ! i) [nat (max 0 (int ?sl - 2))..<min (?el + 3) (length ?lines)]"
    by (simp only: evidence_window_def Let_def filter_interval_upt)
  have "py_slice (nat (max 0 (int ?sl - 2))) (min (length ?lines) (?el + 3)) ?lines =
        map (\<lambda>i. ?lines ! i) [nat (max 0 (int ?sl - 2))..<min (?el + 3) (length ?lines)]"
    by (simp add: slice_nth min.commute)
  with w show ?thesis
    by (simp only: extract_evidence_def Let_def)
qed

lemma scan_matches_facts:
  "map without_id (fst (scan_matches rule fp content spans u)) =
     map (expected_match_finding rule fp content) spans"
proof (induction spans arbitrary: u)
  case Nil
  show ?case by simp
next
  case (Cons span spans)
  obtain s e where span: "span = (s, e)" by (cases span)
  have "without_id (hd (fst (scan_matches rule fp content (span # spans) u))) =
        expected_match_finding rule fp content span"
    by (simp add: span without_id_def expected_match_finding_def
          extract_evidence_window line_number_def count_char_def uuid4_def Let_def split_beta)
  moreover have "tl (fst (scan_matches rule fp content (span # spans) u)) =
        fst (scan_matches rule fp content spans (snd (uuid4 u)))"
    by (simp add: span Let_def split_beta)
  moreover have "fst (scan_matches rule fp content (span # spans) u) \<noteq> []"
    by (simp add: span Let_def split_beta)
  ultimately show ?case
    using Cons.IH[of "snd (uuid4 u)"]
    by (cases "fst (scan_matches rule fp content (span # spans) u)") simp_all
qed

lemma scan_file_facts:
  "map without_id (fst (scan_file fm rules fp content u)) =
     concat (map (\<lambda>rule. map (expected_match_finding rule fp content) (r_pattern rule content))
                 (filter (\<lambda>rule. list_ex (\<lambda>glob. fm fp glob) (r_file_globs rule)) rules))"
  by (induction rules arbitrary: u) (simp_all add: scan_matches_facts Let_def split_beta)

lemma digit_value: "n < 10 \<Longrightarrow> of_char (''0123456789'' ! n) - 48 = n"
proof -
  assume "n < 10"
  then have "n \<in> {0, 1, 2, 3, 4, 5, 6, 7, 8, 9}" by auto
  then show ?thesis by (auto simp: nth_Cons')
qed

lemma nat_of_decimal_str_nat: "nat_of_decimal (str_nat n) = n"
proof (induction n rule: str_nat.induct)
  case (1 n)
  show ?case
  proof (cases "n < 10")
    case True
    then show ?thesis
      by (subst str_nat.simps) (simp add: nat_of_decimal_def digit_value)
  next
    case False
    with 1 have "nat_of_decimal (str_nat (n div 10)) = n div 10" by simp
    with False show ?thesis
      by (subst str_nat.simps) (simp add: nat_of_decimal_def digit_value)
  qed
qed

text \<open>
  C9. The findings of the pattern matcher are, rule by rule and match by match, the
  findings whose line range renders the line numbers of the start and of the end of the
  match (one plus the newlines before the offset) and whose evidence is the redaction of
  the evidence window; the rendering of a number reads back as that number.
\<close>

theorem match_findings_located:
  "map without_id (fst (scan_file fm rules fp content u)) =
     concat (map (\<lambda>rule. map (expected_match_finding rule fp content) (r_pattern rule content))
                 (filter (\<lambda>rule. list_ex (\<lambda>glob. fm fp glob) (r_file_globs rule)) rules)) \<and>
   nat_of_decimal (str_nat n) = n"
  by (simp add: scan_file_facts nat_of_decimal_str_nat)

section \<open>Counting the files scanned\<close>

lemma scan_dir_entries_fold:
  "scan_dir_entries w rules fps st =
     foldl (scan_step w rules) st (filter (\<lambda>e. is_file w e \<and> \<not> should_skip_file w e) fps)"
proof (induction fps arbitrary: st)
  case Nil
  show ?case by simp
next
  case (Cons fp fps)
  obtain a n u where st: "st = (a, n, u)" by (cases st)
  show ?case by (simp add: st Cons.IH scan_step_def Let_def split_beta)
qed

lemma scan_each_path_fold:
  "scan_each_path w rules paths st = foldl (scan_step w rules) st (files_to_scan w paths)"
proof (induction paths arbitrary: st)
  case Nil
  show ?case by (simp add: files_to_scan_def)
next
  case (Cons p paths)
  obtain a n u where st: "st = (a, n, u)" by (cases st)
  have f: "files_to_scan w (p # paths) =
        (let fp = to_path w p
         in if is_file w fp then [fp]
            else if is_dir w fp
            then filter (\<lambda>e. is_file w e \<and> \<not> should_skip_file w e) (rglob w fp)
            else []) @ files_to_scan w paths"
    by (simp add: files_to_scan_def)
  have step: "scan_step w rules (a, n, u) (to_path w p) =
        (a @ fst (scan_single_file w rules (to_path w p) u), n + 1,
         snd (scan_single_file w rules (to_path w p) u))"
    by (simp add: scan_step_def Let_def)
  show ?case
  proof (cases "is_file w (to_path w p)")
    case True
    then show ?thesis
      by (simp add: st f Cons.IH Let_def split_beta step[symmetric] del: One_nat_def)
  next
    case False
    then show ?thesis
      by (simp add: st f Cons.IH scan_dir_entries_fold Let_def)
  qed
qed

lemma fold_scan_step_count:
  "fst (snd (foldl (scan_step w rules) st fs)) = fst (snd st) + length fs"
  by (induction fs arbitrary: st) (simp_all add: scan_step_def Let_def)

lemma scan_paths_count:
  "total_files_scanned (summary (scan_paths w rules paths frameworks u)) =
     length (files_to_scan w paths)"
proof -
  have "total_files_scanned (summary (scan_paths w rules paths frameworks u)) =
        fst (snd (scan_each_path w rules paths ([], 0, snd (uuid4 u))))"
    by (simp add: scan_paths_def generate_summary_def Let_def split_beta)
  then show ?thesis by (simp add: scan_each_path_fold fold_scan_step_count)
qed

text \<open>
  C3, as the code has it. The number of files scanned is the number of files handed to
  \<open>scan_single_file\<close>: files skipped by the policy below a directory are left out
  before the count, but a file that cannot be read is counted; it adds no finding, and the
  loop goes on with the files after it.
\<close>

theorem unreadable_file_counted:
  "total_files_scanned (summary (scan_paths w rules paths frameworks u)) =
     length (files_to_scan w paths) \<and>
   scan_each_path w rules paths st = foldl (scan_step w rules) st (files_to_scan w paths) \<and>
   (read_text w fp = None \<longrightarrow>
      scan_step w rules (found, n, u') fp = (found, n + 1, u'))"
  by (simp add: scan_paths_count scan_each_path_fold scan_step_def scan_single_file_def)

theorem unreadable_file_counted_witness:
  "read_text unreadable_world (to_path unreadable_world ''a.txt'') = None \<and>
   scan_step unreadable_world [] ([], 0, example_uuids) (to_path unreadable_world ''a.txt'') =
     ([], 0 + 1, example_uuids)"
  using unreadable_file_counted[of unreadable_world "[]" "[]" None example_uuids
          "([], 0, example_uuids)" "to_path unreadable_world ''a.txt''" "[]" 0 example_uuids]
  by (simp add: unreadable_world_def)

text \<open>
  C3 as stated fails: a single file that cannot be read is counted as scanned.
\<close>

theorem unreadable_file_not_counted_counterexample:
  "read_text unreadable_world (to_path unreadable_world ''a.txt'') = None \<and>
   total_files_scanned (summary (scan_paths unreadable_world [] [''a.txt''] None example_uuids)) = 1"
  by (simp add: unreadable_world_def scan_paths_def generate_summary_def scan_single_file_def
        uuid4_def Let_def split_beta)


section \<open>The matcher against what a pattern matches\<close>

declare prv.simps [simp del]

declare ms.simps(6) [simp del]

lemma prv_Nil [simp]: "prv p [] = p"
  by (simp add: prv.simps)

lemma prv_Cons [simp]: "prv p (c # w) = Some (last (c # w))"
  by (simp add: prv.simps)

lemma prv_append [simp]: "prv p (u @ v) = prv (prv p u) v"
  by (cases v) (simp_all add: prv.simps)

lemma hdo_append [simp]: "hdo (v @ s) = nxt v (hdo s)"
  by (cases v) simp_all

lemma nxt_append [simp]: "nxt (u @ v) n = nxt u (nxt v n)"
  by (cases u) simp_all

lemma ms_sound:
  "(p', s') \<in> set (ms r (p, s)) \<Longrightarrow> \<exists>w. s = w @ s' \<and> p' = prv p w \<and> sem r p w (hdo s')"
proof (induction r "(p, s)" arbitrary: p s p' s' rule: ms.induct)
  case (1 P p s)
  then show ?case
    by (cases s) (auto split: if_splits intro: sem_Atom)
next
  case (2 p s)
  then show ?case by (auto intro: sem_Eps)
next
  case (3 p s)
  then show ?case by (auto split: if_splits intro: sem_WordB)
next
  case (4 a b p s)
  from "4.prems" obtain p1 s1 where a: "(p1, s1) \<in> set (ms a (p, s))"
    and b: "(p', s') \<in> set (ms b (p1, s1))" by auto
  from "4.hyps"(1)[OF a] obtain u where u: "s = u @ s1" "p1 = prv p u" "sem a p u (hdo s1)"
    by blast
  from "4.hyps"(2)[OF a b] obtain v where v: "s1 = v @ s'" "p' = prv p1 v" "sem b p1 v (hdo s')"
    by blast
  from u v have "sem (Seq a b) p (u @ v) (hdo s')"
    by (auto intro: sem_Seq)
  with u v show ?case by auto
next
  case (5 a b p s)
  from "5.prems" consider "(p', s') \<in> set (ms a (p, s))" | "(p', s') \<in> set (ms b (p, s))"
    by auto
  then show ?case
  proof cases
    case 1
    from "5.hyps"(1)[OF 1] show ?thesis by (blast intro: sem_AltL)
  next
    case 2
    from "5.hyps"(2)[OF 2] show ?thesis by (blast intro: sem_AltR)
  qed
next
  case (6 a p s)
  from "6.prems" have "(p', s') \<in> set (concat (map (\<lambda>st'. if length (snd st') < length (snd (p, s)) then ms (Star a) st' else [])
                 (ms a (p, s))) @ [(p, s)])"
    by (subst (asm) ms.simps(6))
  then consider "(p', s') = (p, s)"
    | p1 s1 where "(p1, s1) \<in> set (ms a (p, s))" "length s1 < length s"
        "(p', s') \<in> set (ms (Star a) (p1, s1))"
    by (auto split: if_splits)
  then show ?case
  proof cases
    case 1
    then show ?thesis by (auto intro: sem_Star0)
  next
    case 2
    from "6.hyps"(1)[OF 2(1)] obtain u where u: "s = u @ s1" "p1 = prv p u" "sem a p u (hdo s1)"
      by blast
    from "6.hyps"(2)[OF 2(1) _ 2(3)] 2(2)
    obtain v where v: "s1 = v @ s'" "p' = prv p1 v" "sem (Star a) p1 v (hdo s')"
      by auto
    from u 2(2) have "u \<noteq> []" by auto
    with u v have "sem (Star a) p (u @ v) (hdo s')"
      by (auto intro: sem_StarS)
    with u v show ?thesis by auto
  qed
qed

lemma ms_complete:
  "sem r p w n \<Longrightarrow> hdo s' = n \<Longrightarrow> (prv p w, s') \<in> set (ms r (p, w @ s'))"
proof (induction arbitrary: s' rule: sem.induct)
  case (sem_Atom P c p n)
  then show ?case by simp
next
  case (sem_Eps p n)
  show ?case by simp
next
  case (sem_WordB p n)
  then show ?case by simp
next
  case (sem_Seq a p u v n b)
  have a: "(prv p u, v @ s') \<in> set (ms a (p, u @ v @ s'))"
    using sem_Seq.IH(1)[of "v @ s'"] sem_Seq.prems by simp
  have b: "(prv (prv p u) v, s') \<in> set (ms b (prv p u, v @ s'))"
    using sem_Seq.IH(2)[of s'] sem_Seq.prems by simp
  have "(prv (prv p u) v, s') \<in> (\<Union>x\<in>set (ms a (p, u @ v @ s')). set (ms b x))"
    using a b by (rule UN_I)
  then show ?case by simp
next
  case (sem_AltL a p w n b)
  then show ?case by simp
next
  case (sem_AltR b p w n a)
  then show ?case by simp
next
  case (sem_Star0 a p n)
  show ?case by (subst ms.simps(6)) simp
next
  case (sem_StarS u a p v n)
  have a: "(prv p u, v @ s') \<in> set (ms a (p, u @ v @ s'))"
    using sem_StarS.IH(1)[of "v @ s'"] sem_StarS.prems by simp
  have b: "(prv (prv p u) v, s') \<in> set (ms (Star a) (prv p u, v @ s'))"
    using sem_StarS.IH(2)[of s'] sem_StarS.prems by simp
  have l: "length (snd (prv p u, v @ s')) < length (snd (p, u @ v @ s'))"
    using sem_StarS.hyps(1) by simp
  have "(prv (prv p u) v, s') \<in>
        (\<Union>x\<in>set (ms a (p, u @ v @ s')).
            set (if length (snd x) < length (snd (p, u @ v @ s')) then ms (Star a) x else []))"
    using a b l by (intro UN_I[of "(prv p u, v @ s')"]) (simp_all only: if_True)
  then show ?case by (subst ms.simps(6)) auto
qed

lemma ms_iff:
  "((p', s') \<in> set (ms r (p, s))) = (\<exists>w. s = w @ s' \<and> p' = prv p w \<and> sem r p w (hdo s'))"
  using ms_sound ms_complete by blast

section \<open>Delimited patterns\<close>

inductive_simps sem_Atom_iff: "sem (Atom P) p w n"

inductive_simps sem_Eps_iff: "sem Eps p w n"

inductive_simps sem_WordB_iff: "sem WordB p w n"

inductive_simps sem_Seq_iff: "sem (Seq a b) p w n"

inductive_simps sem_Alt_iff: "sem (Alt a b) p w n"

lemma sem_ctx_free: "sem r p w n \<Longrightarrow> wb_free r \<Longrightarrow> sem r p' w n'"
proof (induction arbitrary: p' n' rule: sem.induct)
  case (sem_Seq a p u v n b)
  then show ?case by (auto intro: sem.sem_Seq)
next
  case (sem_StarS u a p v n)
  then show ?case by (auto intro: sem.sem_StarS)
qed (auto intro: sem.intros)

lemma sem_min_len: "sem r p w n \<Longrightarrow> min_len r \<le> length w"
  by (induction rule: sem.induct) auto

lemma sem_allowed: "sem r p w n \<Longrightarrow> c \<in> set w \<Longrightarrow> allowed r c"
  by (induction rule: sem.induct) auto

lemma sem_foldr_Seq:
  "sem (foldr Seq rs t) p w n =
     (\<exists>u v. w = u @ v \<and> sem (foldr Seq rs Eps) p u (nxt v n) \<and> sem t (prv p u) v n)"
proof (induction rs arbitrary: p w)
  case Nil
  show ?case by (simp add: sem_Eps_iff)
next
  case (Cons r rs)
  show ?case
  proof
    assume "sem (foldr Seq (r # rs) t) p w n"
    then obtain x y where w: "w = x @ y" and r: "sem r p x (nxt y n)"
      and rest: "sem (foldr Seq rs t) (prv p x) y n"
      by (auto simp: sem_Seq_iff)
    from rest Cons.IH obtain u v where y: "y = u @ v"
      and u: "sem (foldr Seq rs Eps) (prv p x) u (nxt v n)" and v: "sem t (prv (prv p x) u) v n"
      by blast
    from r y have "sem r p x (nxt u (nxt v n))" by simp
    with u have "sem (foldr Seq (r # rs) Eps) p (x @ u) (nxt v n)"
      by (auto intro: sem.sem_Seq)
    moreover from v have "sem t (prv p (x @ u)) v n" by simp
    moreover from w y have "w = (x @ u) @ v" by simp
    ultimately show "\<exists>u v. w = u @ v \<and> sem (foldr Seq (r # rs) Eps) p u (nxt v n) \<and>
                          sem t (prv p u) v n"
      by blast
  next
    assume "\<exists>u v. w = u @ v \<and> sem (foldr Seq (r # rs) Eps) p u (nxt v n) \<and> sem t (prv p u) v n"
    then obtain u v where w: "w = u @ v" and u: "sem (foldr Seq (r # rs) Eps) p u (nxt v n)"
      and v: "sem t (prv p u) v n" by blast
    from u obtain x y where xy: "u = x @ y" and r: "sem r p x (nxt y (nxt v n))"
      and rest: "sem (foldr Seq rs Eps) (prv p x) y (nxt v n)"
      by (auto simp: sem_Seq_iff)
    from rest v xy have "sem (foldr Seq rs t) (prv p x) (y @ v) n"
      using Cons.IH[of "prv p x" "y @ v"] by auto
    moreover from r have "sem r p x (nxt (y @ v) n)" by simp
    ultimately have "sem (Seq r (foldr Seq rs t)) p (x @ (y @ v)) n"
      by (rule sem.sem_Seq[rotated])
    with w xy show "sem (foldr Seq (r # rs) t) p w n" by simp
  qed
qed

lemma sem_delimited:
  assumes "wb_free (seqs rs)" and "0 < min_len (seqs rs)"
  shows "sem (seqs (WordB # rs @ [WordB])) p w n =
           (sem (seqs rs) None w None \<and> wordo p \<noteq> wordo (nxt w n) \<and> wordo (prv p w) \<noteq> wordo n)"
proof -
  have shape: "seqs (WordB # rs @ [WordB]) = Seq WordB (foldr Seq rs (Seq WordB Eps))"
    by (simp add: seqs_def)
  have tail: "sem (Seq WordB Eps) q v n = (v = [] \<and> wordo q \<noteq> wordo n)" for q v
    by (auto simp: sem_Seq_iff sem_WordB_iff sem_Eps_iff)
  have "sem (seqs (WordB # rs @ [WordB])) p w n =
        (wordo p \<noteq> wordo (nxt w n) \<and> sem (foldr Seq rs (Seq WordB Eps)) p w n)"
    unfolding shape by (auto simp: sem_Seq_iff sem_WordB_iff)
  also have "sem (foldr Seq rs (Seq WordB Eps)) p w n =
        (sem (seqs rs) p w n \<and> wordo (prv p w) \<noteq> wordo n)"
    unfolding sem_foldr_Seq[of rs "Seq WordB Eps"] tail by (auto simp: seqs_def)
  also have "sem (seqs rs) p w n = sem (seqs rs) None w None"
    using assms(1) sem_ctx_free by blast
  finally show ?thesis by blast
qed

lemma takeWhile_prefix_len:
  "prefix w s \<Longrightarrow> \<forall>c\<in>set w. A c \<Longrightarrow> length w \<le> length (takeWhile A s)"
proof (induction w arbitrary: s)
  case Nil
  show ?case by simp
next
  case (Cons c w)
  from Cons.prems(1) obtain s' where s: "s = c # s'" "prefix w s'"
    by (cases s) auto
  from Cons.IH[OF s(2)] Cons.prems(2) s(1) show ?case by simp
qed

lemma sublist_max_run:
  "sublist w s \<Longrightarrow> \<forall>c\<in>set w. A c \<Longrightarrow> length w \<le> max_run A s"
proof (induction s)
  case Nil
  then show ?case by simp
next
  case (Cons c s)
  from Cons.prems(1) consider "prefix w (c # s)" | "sublist w s"
    by (auto simp: sublist_Cons_right)
  then show ?case
  proof cases
    case 1
    from takeWhile_prefix_len[OF 1 Cons.prems(2)] show ?thesis by simp
  next
    case 2
    from Cons.IH[OF 2 Cons.prems(2)] show ?thesis by simp
  qed
qed

lemma delimI:
  assumes "wb_free (seqs rs)" and "0 < min_len (seqs rs)" and "\<not> allowed (seqs rs) CHR ''*''"
    and "\<And>w m. sem (seqs rs) None w None \<Longrightarrow> m \<in> set masks \<Longrightarrow> sublist w m \<Longrightarrow> False"
  shows "delim (seqs (WordB # rs @ [WordB]))"
  unfolding delim_def
proof (intro exI[of _ "\<lambda>w. sem (seqs rs) None w None"] conjI allI impI ballI)
  fix p w n
  show "sem (seqs (WordB # rs @ [WordB])) p w n =
          (sem (seqs rs) None w None \<and> wordo p \<noteq> wordo (nxt w n) \<and> wordo (prv p w) \<noteq> wordo n)"
    by (rule sem_delimited[OF assms(1,2)])
next
  fix w assume "sem (seqs rs) None w None"
  from sem_min_len[OF this] assms(2) show "w \<noteq> []" by auto
next
  fix w assume "sem (seqs rs) None w None"
  with sem_allowed assms(3) show "CHR ''*'' \<notin> set w" by blast
next
  fix w m assume "sem (seqs rs) None w None" "m \<in> set masks"
  with assms(4) show "\<not> sublist w m" by blast
qed

lemma run_bound:
  assumes "sem r p w n" and "sublist w m"
  shows "min_len r \<le> max_run (allowed r) m"
proof -
  have "\<forall>c\<in>set w. allowed r c" using assms(1) sem_allowed by blast
  from sublist_max_run[OF assms(2) this] sem_min_len[OF assms(1)] show ?thesis by simp
qed

lemma rx_shapes:
  "email_rx = seqs (WordB # email_parts @ [WordB])"
  "card_rx = seqs (WordB # card_parts @ [WordB])"
  "phone_rx = seqs (WordB # phone_parts @ [WordB])"
  "token_rx = seqs (WordB # token_parts @ [WordB])"
  by (simp_all add: email_rx_def card_rx_def phone_rx_def token_rx_def
        email_parts_def card_parts_def phone_parts_def token_parts_def)

lemma wb_free_rep [simp]: "wb_free (rep k r) = (k = 0 \<or> wb_free r)"
  by (induction k) auto

lemma min_len_rep [simp]: "min_len (rep k r) = k * min_len r"
  by (induction k) auto

lemma allowed_rep [simp]: "allowed (rep k r) c = (0 < k \<and> allowed r c)"
  by (induction k) auto

lemma parts_wb_free:
  "wb_free (seqs email_parts)" "wb_free (seqs card_parts)"
  "wb_free (seqs phone_parts)" "wb_free (seqs token_parts)"
  by (simp_all add: email_parts_def card_parts_def phone_parts_def token_parts_def seqs_def
        plus_def lit_def at_least_def opt_def one_of_def)

lemma parts_min_len:
  "min_len (seqs email_parts) = 6" "min_len (seqs card_parts) = 16"
  "min_len (seqs phone_parts) = 10" "min_len (seqs token_parts) = 20"
  by (simp_all add: email_parts_def card_parts_def phone_parts_def token_parts_def seqs_def
        plus_def lit_def at_least_def opt_def one_of_def)

lemma parts_allowed:
  "allowed (seqs email_parts) c = (email_local c \<or> c = CHR ''@'' \<or> email_domain c \<or> c = CHR ''.'' \<or> email_tld c)"
  "allowed (seqs card_parts) c = (is_digit c \<or> c = CHR ''-'' \<or> c = CHR '' '')"
  "allowed (seqs phone_parts) c = (is_digit c \<or> c = CHR ''-'' \<or> c = CHR '' '')"
  "allowed (seqs token_parts) c = token_char c"
  by (auto simp add: email_parts_def card_parts_def phone_parts_def token_parts_def seqs_def
        plus_def lit_def at_least_def opt_def one_of_def)

lemma star_not_allowed:
  "\<not> allowed (seqs email_parts) CHR ''*''" "\<not> allowed (seqs card_parts) CHR ''*''"
  "\<not> allowed (seqs phone_parts) CHR ''*''" "\<not> allowed (seqs token_parts) CHR ''*''"
  by (simp_all add: parts_allowed email_local_def email_domain_def email_tld_def token_char_def
        is_alpha_def is_digit_def)

lemma runs_email:
  "max_run (allowed (seqs email_parts)) email_mask < 6"
  "max_run (allowed (seqs email_parts)) card_mask < 6"
  "max_run (allowed (seqs email_parts)) phone_mask < 6"
  by code_simp+

lemma runs_card:
  "max_run (allowed (seqs card_parts)) email_mask < 16"
  "max_run (allowed (seqs card_parts)) card_mask < 16"
  "max_run (allowed (seqs card_parts)) phone_mask < 16"
  "max_run (allowed (seqs card_parts)) token_mask < 16"
  by code_simp+

lemma runs_phone:
  "max_run (allowed (seqs phone_parts)) email_mask < 10"
  "max_run (allowed (seqs phone_parts)) card_mask < 10"
  "max_run (allowed (seqs phone_parts)) phone_mask < 10"
  "max_run (allowed (seqs phone_parts)) token_mask < 10"
  by code_simp+

lemma runs_token:
  "max_run (allowed (seqs token_parts)) email_mask < 20"
  "max_run (allowed (seqs token_parts)) card_mask < 20"
  "max_run (allowed (seqs token_parts)) phone_mask < 20"
  "max_run (allowed (seqs token_parts)) token_mask < 20"
  by code_simp+

lemma email_has_at: "sem (seqs email_parts) p w n \<Longrightarrow> CHR ''@'' \<in> set w"
  by (auto simp: email_parts_def seqs_def lit_def sem_Seq_iff sem_Atom_iff)

lemma at_not_in_token_mask: "CHR ''@'' \<notin> set token_mask"
  by (simp add: token_mask_def)

lemma delim_email: "delim email_rx"
  unfolding rx_shapes
proof (rule delimI)
  fix w m assume w: "sem (seqs email_parts) None w None" and m: "m \<in> set masks" and s: "sublist w m"
  from m consider "m = email_mask" | "m = card_mask" | "m = phone_mask" | "m = token_mask"
    by (auto simp: masks_def)
  then show False
  proof cases
    case 4
    from s have "set w \<subseteq> set m" by (rule set_mono_sublist)
    with email_has_at[OF w] at_not_in_token_mask 4 show False by auto
  qed (use run_bound[OF w s] runs_email parts_min_len in auto)
qed (simp_all add: parts_wb_free parts_min_len star_not_allowed)

lemma delim_card: "delim card_rx"
  unfolding rx_shapes
proof (rule delimI)
  fix w m assume w: "sem (seqs card_parts) None w None" and m: "m \<in> set masks" and s: "sublist w m"
  from m consider "m = email_mask" | "m = card_mask" | "m = phone_mask" | "m = token_mask"
    by (auto simp: masks_def)
  then show False
    by cases (use run_bound[OF w s] runs_card parts_min_len in auto)
qed (simp_all add: parts_wb_free parts_min_len star_not_allowed)

lemma delim_phone: "delim phone_rx"
  unfolding rx_shapes
proof (rule delimI)
  fix w m assume w: "sem (seqs phone_parts) None w None" and m: "m \<in> set masks" and s: "sublist w m"
  from m consider "m = email_mask" | "m = card_mask" | "m = phone_mask" | "m = token_mask"
    by (auto simp: masks_def)
  then show False
    by cases (use run_bound[OF w s] runs_phone parts_min_len in auto)
qed (simp_all add: parts_wb_free parts_min_len star_not_allowed)

lemma delim_token: "delim token_rx"
  unfolding rx_shapes
proof (rule delimI)
  fix w m assume w: "sem (seqs token_parts) None w None" and m: "m \<in> set masks" and s: "sublist w m"
  from m consider "m = email_mask" | "m = card_mask" | "m = phone_mask" | "m = token_mask"
    by (auto simp: masks_def)
  then show False
    by cases (use run_bound[OF w s] runs_token parts_min_len in auto)
qed (simp_all add: parts_wb_free parts_min_len star_not_allowed)

section \<open>Replacing every match\<close>

lemma ms_nonempty: "(ms r (p, s) \<noteq> []) = here r p s"
proof
  assume "ms r (p, s) \<noteq> []"
  then obtain p' s' where "(p', s') \<in> set (ms r (p, s))"
    by (cases "ms r (p, s)") auto
  then show "here r p s" unfolding here_def ms_iff by blast
next
  assume "here r p s"
  then obtain w v where "s = w @ v" "sem r p w (hdo v)" unfolding here_def by blast
  then have "(prv p w, v) \<in> set (ms r (p, s))" unfolding ms_iff by blast
  then show "ms r (p, s) \<noteq> []" by auto
qed

lemma occ_Nil: "occ r p [] = here r p []"
  by (simp add: occ_def)

lemma occ_Cons: "occ r p (c # cs) = (here r p (c # cs) \<or> occ r (Some c) cs)"
proof
  assume "occ r p (c # cs)"
  then obtain u v where uv: "c # cs = u @ v" "here r (prv p u) v" unfolding occ_def by blast
  show "here r p (c # cs) \<or> occ r (Some c) cs"
  proof (cases u)
    case Nil
    with uv show ?thesis by simp
  next
    case (Cons a u')
    with uv have "cs = u' @ v" "here r (prv (Some c) u') v"
      by (auto simp: prv.simps)
    then show ?thesis unfolding occ_def by blast
  qed
next
  assume "here r p (c # cs) \<or> occ r (Some c) cs"
  then show "occ r p (c # cs)"
  proof
    assume "here r p (c # cs)"
    then have "c # cs = [] @ (c # cs) \<and> here r (prv p []) (c # cs)" by simp
    then show ?thesis unfolding occ_def by blast
  next
    assume "occ r (Some c) cs"
    then obtain u v where "cs = u @ v" "here r (prv (Some c) u) v" unfolding occ_def by blast
    then have "c # cs = (c # u) @ v \<and> here r (prv p (c # u)) v"
      by (auto simp: prv.simps)
    then show ?thesis unfolding occ_def by blast
  qed
qed

lemma search_from_occ: "search_from r p x = occ r p x"
  by (induction x arbitrary: p) (simp_all add: occ_Nil occ_Cons ms_nonempty)

lemma occ_suffix: "occ r (prv p u) v \<Longrightarrow> occ r p (u @ v)"
proof -
  assume "occ r (prv p u) v"
  then obtain a b where "v = a @ b" "here r (prv (prv p u) a) b" unfolding occ_def by blast
  then have "u @ v = (u @ a) @ b \<and> here r (prv p (u @ a)) b" by simp
  then show ?thesis unfolding occ_def by blast
qed

lemma here_occ: "here r p s \<Longrightarrow> occ r p s"
proof -
  assume "here r p s"
  then have "s = [] @ s \<and> here r (prv p []) s" by simp
  then show ?thesis unfolding occ_def by blast
qed

lemma delim_sem:
  assumes "delim r" and "sem r p w n"
  shows "w \<noteq> []" and "CHR ''*'' \<notin> set w" and "m \<in> set masks \<Longrightarrow> \<not> sublist w m"
    and "wordo p \<noteq> wordo (nxt w n)" and "wordo (prv p w) \<noteq> wordo n"
  using assms unfolding delim_def by blast+

lemma delim_transfer:
  assumes "delim r" and "sem r p w n"
    and "wordo p' \<noteq> wordo (nxt w n')" and "wordo (prv p' w) \<noteq> wordo n'"
  shows "sem r p' w n'"
  using assms unfolding delim_def by blast

lemma match_head:
  assumes "delim r" and "ms r (p, s) = (p', s') # rest"
  shows "\<exists>w. s = w @ s' \<and> w \<noteq> [] \<and> p' = prv p w" and "length s' < length s"
    and "wordo p \<noteq> wordo (hdo s)" and "wordo p' \<noteq> wordo (hdo s')"
proof -
  from assms(2) have "(p', s') \<in> set (ms r (p, s))" by simp
  then obtain w where w: "s = w @ s'" "p' = prv p w" "sem r p w (hdo s')"
    unfolding ms_iff by blast
  from delim_sem(1)[OF assms(1) w(3)] have ne: "w \<noteq> []" .
  with w show "\<exists>w. s = w @ s' \<and> w \<noteq> [] \<and> p' = prv p w" by blast
  from w ne show "length s' < length s" by simp
  from delim_sem(4)[OF assms(1) w(3)] w(1) show "wordo p \<noteq> wordo (hdo s)" by simp
  from delim_sem(5)[OF assms(1) w(3)] w(2) show "wordo p' \<noteq> wordo (hdo s')" by simp
qed

lemma sub_delim:
  assumes "delim r"
  shows "sub_from r m False p s =
     (case ms r (p, s) of
        [] \<Rightarrow> (case s of [] \<Rightarrow> [] | c # cs \<Rightarrow> c # sub_from r m False (Some c) cs)
      | (p', s') # rest \<Rightarrow> m @ sub_from r m False p' s')"
proof (cases "ms r (p, s)")
  case Nil
  then show ?thesis by (subst sub_from.simps) simp
next
  case (Cons st rest)
  obtain p' s' where st: "st = (p', s')" by (cases st)
  from match_head(2)[OF assms Cons[unfolded st]] have "length s' < length s" .
  with Cons st show ?thesis by (subst sub_from.simps) simp
qed

lemma mask_ends:
  assumes "m \<in> set masks"
  shows "hdo m = Some CHR ''*''" and "m \<noteq> []" and "last m = CHR ''*''"
  using assms
  by (auto simp: masks_def email_mask_def card_mask_def phone_mask_def token_mask_def)

lemma star_not_word: "\<not> is_word CHR ''*''"
  by (simp add: is_word_def)

lemma sub_hd:
  assumes "delim r" and "m \<in> set masks"
  shows "hdo (sub_from r m False p s) = hdo s \<or>
         (hdo (sub_from r m False p s) = Some CHR ''*'' \<and> wordo p \<noteq> wordo (hdo s))"
proof (cases "ms r (p, s)")
  case Nil
  then show ?thesis by (subst sub_delim[OF assms(1)]) (simp split: list.splits)
next
  case (Cons st rest)
  obtain p' s' where st: "st = (p', s')" by (cases st)
  from match_head(3)[OF assms(1) Cons[unfolded st]] have "wordo p \<noteq> wordo (hdo s)" .
  moreover have "hdo (sub_from r m False p s) = Some CHR ''*''"
    using mask_ends(1,2)[OF assms(2)] Cons st
    by (subst sub_delim[OF assms(1)]) (cases m, simp_all)
  ultimately show ?thesis by simp
qed

lemma copied_prefix:
  assumes "delim r" and "m \<in> set masks"
  shows "CHR ''*'' \<notin> set w \<Longrightarrow> sub_from r m False p s = w @ t \<Longrightarrow>
         \<exists>t'. s = w @ t' \<and>
              (wordo (prv p w) \<noteq> wordo (hdo t) \<longrightarrow> wordo (prv p w) \<noteq> wordo (hdo t'))"
proof (induction w arbitrary: p s)
  case Nil
  then have "t = sub_from r m False p s" by simp
  with sub_hd[OF assms, of p s] star_not_word show ?case by auto
next
  case (Cons c w)
  from Cons.prems(1) have c: "c \<noteq> CHR ''*''" and w: "CHR ''*'' \<notin> set w" by auto
  show ?case
  proof (cases "ms r (p, s)")
    case Nil
    with Cons.prems(2) have eq: "(case s of [] \<Rightarrow> [] | c' # cs \<Rightarrow> c' # sub_from r m False (Some c') cs)
                                 = (c # w) @ t"
      by (subst (asm) sub_delim[OF assms(1)]) simp
    then obtain cs where s: "s = c # cs" and rest: "sub_from r m False (Some c) cs = w @ t"
      by (cases s) auto
    from Cons.IH[OF w rest] obtain t' where t': "cs = w @ t'"
      "wordo (prv (Some c) w) \<noteq> wordo (hdo t) \<longrightarrow> wordo (prv (Some c) w) \<noteq> wordo (hdo t')"
      by blast
    have "prv p (c # w) = prv (Some c) w" by (simp add: prv.simps)
    with s t' show ?thesis by auto
  next
    case (Cons st rest)
    obtain p' s' where st: "st = (p', s')" by (cases st)
    have "hdo (sub_from r m False p s) = Some CHR ''*''"
      using mask_ends(1,2)[OF assms(2)] Cons st
      by (subst sub_delim[OF assms(1)]) (cases m, simp_all)
    with Cons.prems(2) c show ?thesis by simp
  qed
qed

lemma inside_mask:
  assumes "m \<noteq> []" and "last m = CHR ''*''" and "m @ b = u @ w @ v" and "length u < length m"
    and "CHR ''*'' \<notin> set w"
  shows "sublist w m"
proof -
  have short: "length u + length w < length m"
  proof (rule ccontr)
    assume "\<not> length u + length w < length m"
    then have k: "length m - 1 - length u < length w" using assms(4) by auto
    have "(m @ b) ! (length m - 1) = last m"
      using assms(1) by (simp add: nth_append last_conv_nth)
    moreover have "(u @ w @ v) ! (length m - 1) = w ! (length m - 1 - length u)"
    proof -
      have i: "length m - 1 = length u + (length m - 1 - length u)" using assms(4) by simp
      have "(u @ w @ v) ! (length u + (length m - 1 - length u)) =
            (w @ v) ! (length m - 1 - length u)"
        by (rule nth_append_length_plus)
      also have "\<dots> = w ! (length m - 1 - length u)" using k by (simp add: nth_append)
      finally show ?thesis using i by simp
    qed
    ultimately have "w ! (length m - 1 - length u) = CHR ''*''"
      using assms(2,3) by simp
    with k assms(5) show False by (metis nth_mem)
  qed
  have "take (length u + length w) (m @ b) = take (length u + length w) m"
    using short by simp
  moreover have "take (length u + length w) (u @ w @ v) = u @ w" by simp
  ultimately have "u @ w = take (length u + length w) m" using assms(3) by simp
  then have "m = u @ w @ drop (length u + length w) m"
    by (metis append_take_drop_id append_assoc)
  then show ?thesis unfolding sublist_def by blast
qed

lemma occ_append:
  assumes "occ q p (a @ b)"
  shows "(\<exists>u w v. a @ b = u @ w @ v \<and> length u < length a \<and> sem q (prv p u) w (hdo v)) \<or>
         occ q (prv p a) b"
proof -
  from assms obtain u w v where x: "a @ b = u @ w @ v" and s: "sem q (prv p u) w (hdo v)"
    unfolding occ_def here_def by blast
  show ?thesis
  proof (cases "length u < length a")
    case True
    with x s show ?thesis by blast
  next
    case False
    then obtain u' where u': "u = a @ u'"
      using x by (metis append_eq_append_conv_if append_take_drop_id not_less)
    with x have "b = u' @ w @ v" by simp
    moreover from s u' have "sem q (prv (prv p a) u') w (hdo v)" by simp
    ultimately have "occ q (prv p a) b" unfolding occ_def here_def by blast
    then show ?thesis by blast
  qed
qed

lemma no_occ_after_sub:
  assumes r: "delim r" and q: "delim q" and m: "m \<in> set masks"
  shows "q = r \<or> \<not> occ q p_in s \<Longrightarrow> ctx_rel p_in p_out s \<Longrightarrow>
         \<not> occ q p_out (sub_from r m False p_in s)"
proof (induction "length s" arbitrary: s p_in p_out rule: less_induct)
  case less
  show ?case
  proof (cases "ms r (p_in, s)")
    case Nil
    note nomatch = Nil
    show ?thesis
    proof (cases s)
      case Nil
      have "\<not> here q p_out []"
        unfolding here_def using delim_sem(1)[OF q] by auto
      with Nil nomatch show ?thesis
        by (subst sub_delim[OF r]) (simp add: occ_Nil)
    next
      case (Cons c cs)
      have out: "sub_from r m False p_in s = c # sub_from r m False (Some c) cs"
        using nomatch Cons by (subst sub_delim[OF r]) simp
      have tail: "\<not> occ q (Some c) (sub_from r m False (Some c) cs)"
      proof (rule less.hyps)
        show "length cs < length s" using Cons by simp
        show "q = r \<or> \<not> occ q (Some c) cs"
          using less.prems(1) Cons by (auto simp: occ_Cons)
        show "ctx_rel (Some c) (Some c) cs" by (simp add: ctx_rel_def)
      qed
      have front: "\<not> here q p_out (sub_from r m False p_in s)"
      proof
        assume "here q p_out (sub_from r m False p_in s)"
        then obtain w t where wt: "sub_from r m False p_in s = w @ t" and sm: "sem q p_out w (hdo t)"
          unfolding here_def by blast
        note d = delim_sem[OF q sm]
        from copied_prefix[OF r m d(2) wt] obtain t' where t': "s = w @ t'"
          "wordo (prv p_in w) \<noteq> wordo (hdo t) \<longrightarrow> wordo (prv p_in w) \<noteq> wordo (hdo t')"
          by blast
        from d(1) have pw: "prv p_out w = prv p_in w" by (simp add: prv.simps)
        from d(1) have nw: "nxt w (hdo t) = nxt w (hdo t')" by (cases w) simp_all
        from d(1) t'(1) have hs: "hdo s = nxt w (hdo t')" by simp
        have right: "wordo (prv p_in w) \<noteq> wordo (hdo t')"
          using d(5) t'(2) pw by simp
        have left: "wordo p_in \<noteq> wordo (nxt w (hdo t'))"
          using less.prems(2) d(4) nw hs unfolding ctx_rel_def by auto
        from delim_transfer[OF q sm left right] t'(1) have h: "here q p_in s"
          unfolding here_def by blast
        from less.prems(1) show False
        proof
          assume "q = r"
          with h nomatch show False using ms_nonempty[of r p_in s] by simp
        next
          assume "\<not> occ q p_in s"
          with here_occ[OF h] show False by simp
        qed
      qed
      from front tail show ?thesis by (simp add: out occ_Cons)
    qed
  next
    case (Cons st rest)
    obtain p' s' where st: "st = (p', s')" by (cases st)
    note mh = match_head[OF r Cons[unfolded st]]
    have out: "sub_from r m False p_in s = m @ sub_from r m False p' s'"
      using Cons st by (subst sub_delim[OF r]) simp
    have tail: "\<not> occ q (prv p_out m) (sub_from r m False p' s')"
    proof (rule less.hyps)
      show "length s' < length s" by (rule mh(2))
      show "q = r \<or> \<not> occ q p' s'"
        using less.prems(1) mh(1) occ_suffix[of q p_in _ s'] by auto
      show "ctx_rel p' (prv p_out m) s'"
        using mask_ends(2,3)[OF m] mh(4) star_not_word by (simp add: ctx_rel_def prv.simps)
    qed
    have inside: "\<not> (\<exists>u w v. m @ sub_from r m False p' s' = u @ w @ v \<and> length u < length m \<and>
                      sem q (prv p_out u) w (hdo v))"
    proof
      assume "\<exists>u w v. m @ sub_from r m False p' s' = u @ w @ v \<and> length u < length m \<and>
                      sem q (prv p_out u) w (hdo v)"
      then obtain u w v where x: "m @ sub_from r m False p' s' = u @ w @ v" "length u < length m"
        and sm: "sem q (prv p_out u) w (hdo v)" by blast
      from inside_mask[OF mask_ends(2,3)[OF m] x delim_sem(2)[OF q sm]]
      have "sublist w m" .
      with delim_sem(3)[OF q sm m] show False by simp
    qed
    from occ_append[of q p_out m "sub_from r m False p' s'"] inside tail
    show ?thesis unfolding out by blast
  qed
qed

lemma sub_identity:
  assumes "delim r"
  shows "\<not> occ r p s \<Longrightarrow> sub_from r m False p s = s"
proof (induction s arbitrary: p)
  case Nil
  then have "ms r (p, []) = []" using ms_nonempty[of r p "[]"] by (simp add: occ_Nil)
  then show ?case by (subst sub_delim[OF assms]) simp
next
  case (Cons c cs)
  then have "ms r (p, c # cs) = []" and "\<not> occ r (Some c) cs"
    using ms_nonempty[of r p "c # cs"] by (simp_all add: occ_Cons)
  with Cons.IH[of "Some c"] show ?case by (subst sub_delim[OF assms]) simp
qed

section \<open>The redaction\<close>

lemma re_search_occ: "re_search r x = occ r None x"
  by (simp add: re_search_def search_from_occ)

lemma stage_clears:
  assumes "delim r" and "m \<in> set masks"
  shows "\<not> occ r None (re_sub r m x)"
  unfolding re_sub_def
  by (rule no_occ_after_sub[OF assms(1) assms(1) assms(2)]) (simp_all add: ctx_rel_def)

lemma stage_keeps_clear:
  assumes "delim r" and "delim q" and "m \<in> set masks" and "\<not> occ q None x"
  shows "\<not> occ q None (re_sub r m x)"
  unfolding re_sub_def
  by (rule no_occ_after_sub[OF assms(1) assms(2) assms(3)]) (simp_all add: ctx_rel_def assms(4))

lemma stage_identity:
  assumes "delim r" and "\<not> occ r None x"
  shows "re_sub r m x = x"
  unfolding re_sub_def by (rule sub_identity[OF assms])

lemma masks_mem:
  "email_mask \<in> set masks" "card_mask \<in> set masks" "phone_mask \<in> set masks"
  "token_mask \<in> set masks"
  by (simp_all add: masks_def)

lemma redacted_clear:
  "\<not> occ email_rx None (redact_sensitive_data text)"
  "\<not> occ card_rx None (redact_sensitive_data text)"
  "\<not> occ phone_rx None (redact_sensitive_data text)"
  "\<not> occ token_rx None (redact_sensitive_data text)"
proof -
  let ?t1 = "re_sub email_rx email_mask text"
  let ?t2 = "re_sub card_rx card_mask ?t1"
  let ?t3 = "re_sub phone_rx phone_mask ?t2"
  let ?t4 = "re_sub token_rx token_mask ?t3"
  have r: "redact_sensitive_data text = ?t4" by (simp add: redact_sensitive_data_def)
  have e1: "\<not> occ email_rx None ?t1" by (rule stage_clears[OF delim_email masks_mem(1)])
  have e2: "\<not> occ email_rx None ?t2"
    by (rule stage_keeps_clear[OF delim_card delim_email masks_mem(2) e1])
  have e3: "\<not> occ email_rx None ?t3"
    by (rule stage_keeps_clear[OF delim_phone delim_email masks_mem(3) e2])
  show "\<not> occ email_rx None (redact_sensitive_data text)"
    unfolding r by (rule stage_keeps_clear[OF delim_token delim_email masks_mem(4) e3])
  have c2: "\<not> occ card_rx None ?t2" by (rule stage_clears[OF delim_card masks_mem(2)])
  have c3: "\<not> occ card_rx None ?t3"
    by (rule stage_keeps_clear[OF delim_phone delim_card masks_mem(3) c2])
  show "\<not> occ card_rx None (redact_sensitive_data text)"
    unfolding r by (rule stage_keeps_clear[OF delim_token delim_card masks_mem(4) c3])
  have p3: "\<not> occ phone_rx None ?t3" by (rule stage_clears[OF delim_phone masks_mem(3)])
  show "\<not> occ phone_rx None (redact_sensitive_data text)"
    unfolding r by (rule stage_keeps_clear[OF delim_token delim_phone masks_mem(4) p3])
  show "\<not> occ token_rx None (redact_sensitive_data text)"
    unfolding r by (rule stage_clears[OF delim_token masks_mem(4)])
qed

text \<open>
  C10. Redaction is idempotent: redacting a redacted text changes nothing, since none of
  the four patterns occurs in a redacted text; in particular no mask is matched again.
\<close>

theorem redact_idempotent:
  "redact_sensitive_data (redact_sensitive_data text) = redact_sensitive_data text \<and>
   \<not> re_search email_rx (redact_sensitive_data text) \<and>
   \<not> re_search card_rx (redact_sensitive_data text) \<and>
   \<not> re_search phone_rx (redact_sensitive_data text) \<and>
   \<not> re_search token_rx (redact_sensitive_data text)"
proof -
  let ?r = "redact_sensitive_data text"
  have "redact_sensitive_data ?r = ?r"
    unfolding redact_sensitive_data_def[of ?r] Let_def
    by (simp only: stage_identity[OF delim_email redacted_clear(1)]
          stage_identity[OF delim_card redacted_clear(2)]
          stage_identity[OF delim_phone redacted_clear(3)]
          stage_identity[OF delim_token redacted_clear(4)])
  then show ?thesis by (simp add: re_search_occ redacted_clear)
qed

lemma sem_rep_Atom: "sem (rep k (Atom P)) p w n = (length w = k \<and> (\<forall>c\<in>set w. P c))"
proof (induction k arbitrary: p w)
  case 0
  show ?case by (auto simp: sem_Eps_iff)
next
  case (Suc k)
  show ?case
  proof
    assume "sem (rep (Suc k) (Atom P)) p w n"
    then show "length w = Suc k \<and> (\<forall>c\<in>set w. P c)"
      by (auto simp: sem_Seq_iff sem_Atom_iff Suc)
  next
    assume a: "length w = Suc k \<and> (\<forall>c\<in>set w. P c)"
    then obtain c w' where w: "w = c # w'" by (cases w) auto
    with a have "sem (Atom P) p [c] (nxt w' n)" and "sem (rep k (Atom P)) (prv p [c]) w' n"
      by (auto simp: sem_Atom_iff Suc)
    then have "sem (Seq (Atom P) (rep k (Atom P))) p ([c] @ w') n" by (rule sem_Seq)
    with w show "sem (rep (Suc k) (Atom P)) p w n" by simp
  qed
qed

lemma sem_Star_Atom_all: "sem r p w n \<Longrightarrow> r = Star (Atom P) \<Longrightarrow> \<forall>c\<in>set w. P c"
  by (induction rule: sem.induct) (auto simp: sem_Atom_iff)

lemma sem_Star_Atom_intro: "\<forall>c\<in>set w. P c \<Longrightarrow> sem (Star (Atom P)) p w n"
proof (induction w arbitrary: p)
  case Nil
  show ?case by (rule sem_Star0)
next
  case (Cons c w)
  have "sem (Star (Atom P)) p ([c] @ w) n"
  proof (rule sem_StarS)
    show "[c] \<noteq> []" by simp
    show "sem (Atom P) p [c] (nxt w n)" using Cons.prems by (simp add: sem_Atom_iff)
    show "sem (Star (Atom P)) (prv p [c]) w n" using Cons by simp
  qed
  then show ?case by simp
qed

lemma sem_Star_Atom: "sem (Star (Atom P)) p w n = (\<forall>c\<in>set w. P c)"
  using sem_Star_Atom_all sem_Star_Atom_intro by blast

lemma sem_token_parts:
  "sem (seqs token_parts) p w n = (20 \<le> length w \<and> list_all token_char w)"
proof
  assume "sem (seqs token_parts) p w n"
  then show "20 \<le> length w \<and> list_all token_char w"
    by (auto simp: token_parts_def seqs_def at_least_def sem_Seq_iff sem_Eps_iff
          sem_rep_Atom sem_Star_Atom list_all_iff)
next
  assume a: "20 \<le> length w \<and> list_all token_char w"
  let ?u = "take 20 w" and ?v = "drop 20 w"
  have u: "sem (rep 20 (Atom token_char)) p ?u (nxt ?v (nxt [] n))"
    using a by (auto simp: sem_rep_Atom list_all_iff dest: in_set_takeD)
  have v: "sem (Star (Atom token_char)) (prv p ?u) ?v (nxt [] n)"
    using a by (auto simp: sem_Star_Atom list_all_iff dest: in_set_dropD)
  have "sem (at_least 20 (Atom token_char)) p (?u @ ?v) (nxt [] n)"
    unfolding at_least_def using u v by (rule sem_Seq)
  then have "sem (at_least 20 (Atom token_char)) p w (nxt [] n)" by simp
  moreover have "sem Eps (prv p w) [] n" by (rule sem_Eps)
  ultimately have "sem (Seq (at_least 20 (Atom token_char)) Eps) p (w @ []) n"
    by (rule sem_Seq)
  then show "sem (seqs token_parts) p w n" by (simp add: token_parts_def seqs_def)
qed

lemma sem_token_rx:
  "sem token_rx p w n =
     (20 \<le> length w \<and> list_all token_char w \<and>
      wordo p \<noteq> wordo (nxt w n) \<and> wordo (prv p w) \<noteq> wordo n)"
  unfolding rx_shapes
  by (simp add: sem_delimited parts_wb_free parts_min_len sem_token_parts)

lemma token_search:
  "re_search token_rx x =
     (\<exists>u w v. x = u @ w @ v \<and> 20 \<le> length w \<and> list_all token_char w \<and>
               wordo (prv None u) \<noteq> wordo (nxt w (hdo v)) \<and>
               wordo (prv (prv None u) w) \<noteq> wordo (hdo v))"
  unfolding re_search_occ occ_def here_def sem_token_rx by blast

lemma stage_no_search:
  "\<not> re_search email_rx (re_sub email_rx email_mask x)"
  "\<not> re_search card_rx (re_sub card_rx card_mask x)"
  "\<not> re_search phone_rx (re_sub phone_rx phone_mask x)"
  "\<not> re_search token_rx (re_sub token_rx token_mask x)"
  unfolding re_search_occ
  by (rule stage_clears[OF delim_email masks_mem(1)] stage_clears[OF delim_card masks_mem(2)]
        stage_clears[OF delim_phone masks_mem(3)] stage_clears[OF delim_token masks_mem(4)])+

text \<open>
  C5, as the code has it. Redaction is the four replacements in sequence: e-mail
  addresses, card numbers, phone numbers, tokens; the four masks differ; after each stage
  its pattern occurs nowhere in the text it returns. A token is not any run of twenty or
  more characters of \<open>[A-Za-z0-9+/]\<close>: it is such a run that begins and ends at a word
  boundary.
\<close>

theorem redaction_stages:
  "redact_sensitive_data text =
     re_sub token_rx token_mask (re_sub phone_rx phone_mask
       (re_sub card_rx card_mask (re_sub email_rx email_mask text))) \<and>
   distinct [email_mask, card_mask, phone_mask, token_mask] \<and>
   \<not> re_search email_rx (re_sub email_rx email_mask x) \<and>
   \<not> re_search card_rx (re_sub card_rx card_mask x) \<and>
   \<not> re_search phone_rx (re_sub phone_rx phone_mask x) \<and>
   \<not> re_search token_rx (re_sub token_rx token_mask x) \<and>
   re_search token_rx x =
     (\<exists>u w v. x = u @ w @ v \<and> 20 \<le> length w \<and> list_all token_char w \<and>
               wordo (prv None u) \<noteq> wordo (nxt w (hdo v)) \<and>
               wordo (prv (prv None u) w) \<noteq> wordo (hdo v))"
proof -
  have "distinct [email_mask, card_mask, phone_mask, token_mask]"
    by (simp add: email_mask_def card_mask_def phone_mask_def token_mask_def)
  then show ?thesis
    using token_search[of x] by (simp add: redact_sensitive_data_def stage_no_search)
qed

text \<open>
  C5 as stated fails: a run of twenty letters behind an underscore holds no word boundary
  at its start, and is left as it is.
\<close>

theorem long_run_not_redacted_counterexample:
  "20 \<le> max_run token_char ''_aaaaaaaaaaaaaaaaaaaa'' \<and>
   redact_sensitive_data ''_aaaaaaaaaaaaaaaaaaaa'' = ''_aaaaaaaaaaaaaaaaaaaa''"
  by code_simp


end
